theory Spec2Isabelle
  imports Main
begin

section \<open>Python values, objects and the heap\<close>

text \<open>
  The library keeps its state in Python objects whose identity matters
  (\<^verbatim>\<open>a is b\<close>).  An object lives at an address of a heap; the heap is the list of
  all objects allocated so far, \<^verbatim>\<open>object.__new__\<close> appends to it.  The attributes of an
  instance are its \<^verbatim>\<open>__dict__\<close> (\<^verbatim>\<open>vars(self)\<close>), a dictionary from attribute names to
  values.
\<close>

type_synonym addr = nat

datatype error =
    TraceContextError
  | ValueError string
  | TypeError string
  | KeyError string
  | AttributeError string
  | RecursionError
  | StructureMismatch
  | StructureCorruption

text \<open>The classes whose instances occur: \<^verbatim>\<open>Variable\<close> and its subclasses (by name),
  \<^verbatim>\<open>VariableState\<close>, and the types of graph nodes.\<close>

datatype pytype = VariableT string | VariableStateT | NodeT string

text \<open>
  Values: an opaque leaf value of type \<open>'a\<close>, a reference to a heap object, a tuple of
  hook callables (\<open>'h\<close> names a callable), a \<^verbatim>\<open>tracers.TraceState\<close> and a class object.
\<close>

datatype ('a, 'h) pyval =
    Val 'a
  | Obj addr
  | Tuple "'h list"
  | TraceState nat
  | Type pytype

type_synonym ('a, 'h) pydict = "string \<Rightarrow> ('a, 'h) pyval option"

datatype ('a, 'h) obj =
    Variable string "('a, 'h) pydict"
  | VariableState "('a, 'h) pydict"
  | Node string "(string \<times> ('a, 'h) pyval) list"

type_synonym ('a, 'h) heap = "('a, 'h) obj list"


fun type_of :: "('a, 'h) obj \<Rightarrow> pytype" where
  "type_of (Variable c d) = VariableT c"
| "type_of (VariableState d) = VariableStateT"
| "type_of (Node t cs) = NodeT t"

definition variable_at :: "('a, 'h) heap \<Rightarrow> addr \<Rightarrow> (string \<times> ('a, 'h) pydict) option" where
  "variable_at h a =
     (if a < length h then (case h ! a of Variable c d \<Rightarrow> Some (c, d) | _ \<Rightarrow> None) else None)"

definition variable_state_at :: "('a, 'h) heap \<Rightarrow> addr \<Rightarrow> ('a, 'h) pydict option" where
  "variable_state_at h a =
     (if a < length h then (case h ! a of VariableState d \<Rightarrow> Some d | _ \<Rightarrow> None) else None)"

text \<open>\<^verbatim>\<open>isinstance(value, Variable)\<close>\<close>

definition isinstance_Variable :: "('a, 'h) heap \<Rightarrow> ('a, 'h) pyval \<Rightarrow> bool" where
  "isinstance_Variable h x = (case x of Obj a \<Rightarrow> variable_at h a \<noteq> None | _ \<Rightarrow> False)"

text \<open>\<^verbatim>\<open>object.__new__(cls)\<close> followed by \<^verbatim>\<open>vars(obj).update(d)\<close>: the new object gets the
  next address.\<close>

definition alloc :: "('a, 'h) heap \<Rightarrow> ('a, 'h) obj \<Rightarrow> addr \<times> ('a, 'h) heap" where
  "alloc h ob = (length h, h @ [ob])"

section \<open>variablelib.py\<close>

subsection \<open>The trace state\<close>

text \<open>
  Modelled from the spec: \<^verbatim>\<open>tracers.TraceState\<close> (module \<^verbatim>\<open>flax.nnx.tracers\<close>).  The
  trace state is the epoch token stamped on a Variable at creation: \<^verbatim>\<open>TraceState()\<close>
  records the trace (epoch) that is current when it is built, and \<^verbatim>\<open>is_valid()\<close>
  holds while that trace is still the current one.  The current trace is the parameter
  \<open>cur\<close> of the operations that read it.
\<close>

definition new_TraceState :: "nat \<Rightarrow> ('a, 'h) pyval" where
  "new_TraceState cur = TraceState cur"


subsection \<open>Variable\<close>









text \<open>
  The call \<^verbatim>\<open>obj.get_metadata()\<close> inside a method.  \<^verbatim>\<open>get_metadata\<close> is a plain
  function of the class, so Python looks the name up in the dictionary of the instance
  first: an attribute named \<^verbatim>\<open>get_metadata\<close> (the constructors take any metadata
  name, as in \<^verbatim>\<open>Param(1, get_metadata=7)\<close>) shadows the method and is called in its
  place.  A leaf value, a tuple of hooks, a trace state and a VariableState are not
  callable, and a Variable class called without arguments lacks its \<^verbatim>\<open>value\<close>: the
  call raises \<^verbatim>\<open>TypeError\<close>.  (A stored Variable or node class would run its own
  code; the model does not follow it and gives \<^verbatim>\<open>TypeError\<close> there as well.)
  \<open>get_metadata\<close> is the method of the class, applied to the attributes \<open>d\<close> of the
  instance.
\<close>

definition call_get_metadata ::
  "(('a, 'h) pydict \<Rightarrow> error + ('a, 'h) pydict) \<Rightarrow> ('a, 'h) pydict \<Rightarrow> error + ('a, 'h) pydict" where
  "call_get_metadata get_metadata d =
     (if d ''get_metadata'' = None then get_metadata d
      else Inl (TypeError ''object is not callable''))"

text \<open>\<^verbatim>\<open>Variable.get_metadata\<close>: a copy of the attributes without \<^verbatim>\<open>raw_value\<close> and
  \<^verbatim>\<open>_trace_state\<close> (\<^verbatim>\<open>del\<close> raises when the key is missing).\<close>

definition Variable_get_metadata :: "('a, 'h) pydict \<Rightarrow> error + ('a, 'h) pydict" where
  "Variable_get_metadata d =
     (if d ''raw_value'' = None then Inl (KeyError ''raw_value'')
      else if d ''_trace_state'' = None then Inl (KeyError ''_trace_state'')
      else Inr (d(''raw_value'' := None, ''_trace_state'' := None)))"

text \<open>\<^verbatim>\<open>Variable.copy_from(self, other)\<close>; \<open>other\<close> is the address of any object.\<close>

definition Variable_copy_from ::
  "('a, 'h) heap \<Rightarrow> addr \<Rightarrow> addr \<Rightarrow> (error + unit) \<times> ('a, 'h) heap" where
  "Variable_copy_from h self other =
     (case variable_at h self of
        None \<Rightarrow> (Inl (TypeError ''self''), h)
      | Some (c, d) \<Rightarrow>
          if \<not> other < length h then (Inl (TypeError ''other''), h)
          else if type_of (h ! self) \<noteq> type_of (h ! other)
          then (Inl (ValueError ''Cannot copy from incompatible container''), h)
          else if self = other then (Inr (), h)
          else
            (case d ''_trace_state'' of
               None \<Rightarrow> (Inl (AttributeError ''_trace_state''), h)
             | Some trace_state \<Rightarrow>
                 (case variable_at h other of
                    None \<Rightarrow> (Inl (TypeError ''other''), h)
                  | Some (c', other_vars) \<Rightarrow>
                      if other_vars ''_trace_state'' = None
                      then (Inl (KeyError ''_trace_state''), h)
                      else (Inr (),
                            h[self := Variable c
                                 ((other_vars(''_trace_state'' := None))
                                    (''_trace_state'' \<mapsto> trace_state))]))))"

text \<open>\<^verbatim>\<open>VariableState.get_metadata\<close>: the attributes without \<^verbatim>\<open>type\<close> and \<^verbatim>\<open>value\<close>.\<close>

definition VariableState_get_metadata :: "('a, 'h) pydict \<Rightarrow> error + ('a, 'h) pydict" where
  "VariableState_get_metadata d =
     (if d ''type'' = None then Inl (KeyError ''type'')
      else if d ''value'' = None then Inl (KeyError ''value'')
      else Inr (d(''type'' := None, ''value'' := None)))"

text \<open>\<^verbatim>\<open>Variable.update_from_state(self, variable_state)\<close>.  The method only reads
  \<open>variable_state\<close>, so its work is written over the attributes \<open>sd\<close> of that object
  (\<open>Variable_update_from_state_vars\<close>).  The dictionary of \<open>self\<close> is cleared before the
  arguments of \<^verbatim>\<open>update\<close> are evaluated, so an exception of
  \<^verbatim>\<open>variable_state.get_metadata()\<close> leaves it empty.\<close>

definition Variable_update_from_state_vars ::
  "('a, 'h) heap \<Rightarrow> addr \<Rightarrow> ('a, 'h) pydict \<Rightarrow> (error + unit) \<times> ('a, 'h) heap" where
  "Variable_update_from_state_vars h self sd =
     (case variable_at h self of
        None \<Rightarrow> (Inl (TypeError ''self''), h)
      | Some (c, d) \<Rightarrow>
          (case d ''_trace_state'' of
             None \<Rightarrow> (Inl (AttributeError ''_trace_state''), h)
           | Some trace_state \<Rightarrow>
               (case call_get_metadata VariableState_get_metadata sd of
                  Inl e \<Rightarrow> (Inl e, h[self := Variable c Map.empty])
                | Inr metadata \<Rightarrow>
                    (case sd ''value'' of
                       None \<Rightarrow> (Inl (AttributeError ''value''), h[self := Variable c Map.empty])
                     | Some value \<Rightarrow>
                         (Inr (),
                          h[self := Variable c
                               (metadata(''raw_value'' \<mapsto> value,
                                         ''_trace_state'' \<mapsto> trace_state))])))))"


text \<open>
  \<^verbatim>\<open>Variable.replace(self, value=Missing, **kwargs)\<close>.  \<open>value\<close> is \<open>None\<close> for
  \<^verbatim>\<open>Missing\<close>.  A call that gives the positional \<^verbatim>\<open>value\<close> and the keyword \<^verbatim>\<open>value\<close>
  is refused by Python itself.  \<open>Variable_replace_attributes\<close> is the end of the
  method: copy the attributes, update them, build the new instance.  The recursive call
  \<^verbatim>\<open>value.replace(**kwargs)\<close> has neither \<^verbatim>\<open>value\<close> nor \<^verbatim>\<open>raw_value\<close> among its
  keywords, so it runs this end only.
\<close>

definition Variable_replace_attributes ::
  "('a, 'h) heap \<Rightarrow> addr \<Rightarrow> ('a, 'h) pydict \<Rightarrow> (error + addr) \<times> ('a, 'h) heap" where
  "Variable_replace_attributes h self kwargs =
     (case variable_at h self of
        None \<Rightarrow> (Inl (TypeError ''self''), h)
      | Some (c, d) \<Rightarrow>
          (case alloc h (Variable c (d ++ kwargs)) of (ob, h') \<Rightarrow> (Inr ob, h')))"

definition Variable_replace ::
  "('a, 'h) heap \<Rightarrow> addr \<Rightarrow> ('a, 'h) pyval option \<Rightarrow> ('a, 'h) pydict \<Rightarrow>
     (error + addr) \<times> ('a, 'h) heap" where
  "Variable_replace h self value kwargs =
     (case variable_at h self of
        None \<Rightarrow> (Inl (TypeError ''self''), h)
      | Some (c, d) \<Rightarrow>
          if value \<noteq> None \<and> kwargs ''value'' \<noteq> None
          then (Inl (TypeError ''replace() got multiple values for argument value''), h)
          else
            let kwargs1 = (case value of None \<Rightarrow> kwargs | Some v \<Rightarrow> kwargs(''raw_value'' \<mapsto> v));
                kwargs2 = (case kwargs1 ''value'' of
                             None \<Rightarrow> kwargs1
                           | Some v \<Rightarrow> (kwargs1(''value'' := None))(''raw_value'' \<mapsto> v))
            in
              (case kwargs2 ''raw_value'' of
                 Some (Obj a) \<Rightarrow>
                   if isinstance_Variable h (Obj a)
                   then
                     let kwargs3 = kwargs2(''raw_value'' := None) in
                       if type_of (h ! self) \<noteq> type_of (h ! a)
                       then (Inl (ValueError ''Cannot replace value from incompatible container''), h)
                       else if kwargs3 \<noteq> Map.empty then Variable_replace_attributes h a kwargs3
                       else (Inr a, h)
                   else Variable_replace_attributes h self kwargs2
               | _ \<Rightarrow> Variable_replace_attributes h self kwargs2))"

subsection \<open>VariableState\<close>

text \<open>
  \<^verbatim>\<open>VariableState.__init__(self, type, value, **metadata)\<close>.  A keyword named like one
  of the three parameters is refused by Python (\<^verbatim>\<open>got multiple values for argument\<close>).
  \<open>VariableState_init_vars\<close> is the body: the attributes it leaves in the instance;
  \<open>VariableState_init\<close> is the call \<^verbatim>\<open>VariableState(type, value, **metadata)\<close>, which
  allocates the instance.
\<close>

definition VariableState_init_vars ::
  "('a, 'h) pyval \<Rightarrow> ('a, 'h) pyval \<Rightarrow> ('a, 'h) pydict \<Rightarrow> error + ('a, 'h) pydict" where
  "VariableState_init_vars type value metadata =
     (if metadata ''self'' \<noteq> None \<or> metadata ''type'' \<noteq> None \<or> metadata ''value'' \<noteq> None
      then Inl (TypeError ''__init__() got multiple values for argument'')
      else Inr ([''type'' \<mapsto> type, ''value'' \<mapsto> value] ++ metadata))"

definition VariableState_init ::
  "('a, 'h) heap \<Rightarrow> ('a, 'h) pyval \<Rightarrow> ('a, 'h) pyval \<Rightarrow> ('a, 'h) pydict \<Rightarrow>
     (error + addr) \<times> ('a, 'h) heap" where
  "VariableState_init h type value metadata =
     (case VariableState_init_vars type value metadata of
        Inl e \<Rightarrow> (Inl e, h)
      | Inr sd \<Rightarrow> (case alloc h (VariableState sd) of (ob, h') \<Rightarrow> (Inr ob, h')))"

text \<open>\<^verbatim>\<open>Variable.to_state\<close>: \<open>Variable_to_state_vars\<close> computes the attributes of the
  VariableState it returns from the class and the attributes of the Variable, with the
  metadata that \<^verbatim>\<open>self.get_metadata()\<close> gives.\<close>

definition Variable_to_state_vars :: "string \<Rightarrow> ('a, 'h) pydict \<Rightarrow> error + ('a, 'h) pydict" where
  "Variable_to_state_vars c d =
     (case call_get_metadata Variable_get_metadata d of
        Inl e \<Rightarrow> Inl e
      | Inr metadata \<Rightarrow>
          (case d ''raw_value'' of
             None \<Rightarrow> Inl RecursionError
           | Some raw_value \<Rightarrow> VariableState_init_vars (Type (VariableT c)) raw_value metadata))"


text \<open>\<^verbatim>\<open>VariableState.to_variable\<close>: \<open>VariableState_to_variable_obj\<close> is the Variable it
  builds, from the attributes \<open>sd\<close> of the VariableState and the metadata that
  \<^verbatim>\<open>self.get_metadata()\<close> gives.  The attribute \<^verbatim>\<open>type\<close> is
  annotated \<^verbatim>\<open>type[Variable]\<close>; with any other value the method is outside this model
  and raises.\<close>

definition VariableState_to_variable_obj ::
  "nat \<Rightarrow> ('a, 'h) pydict \<Rightarrow> error + ('a, 'h) obj" where
  "VariableState_to_variable_obj cur sd =
     (case call_get_metadata VariableState_get_metadata sd of
        Inl e \<Rightarrow> Inl e
      | Inr metadata \<Rightarrow>
          (case sd ''type'' of
             Some (Type (VariableT c)) \<Rightarrow>
               (case sd ''value'' of
                  None \<Rightarrow> Inl (AttributeError ''value'')
                | Some value \<Rightarrow>
                    Inr (Variable c (metadata(''raw_value'' \<mapsto> value,
                                              ''_trace_state'' \<mapsto> new_TraceState cur))))
           | _ \<Rightarrow> Inl (TypeError ''type'')))"


text \<open>
  \<^verbatim>\<open>s1 == s2\<close> on VariableState instances.  The class defines no \<^verbatim>\<open>__eq__\<close>
  (\<^verbatim>\<open>Variable\<close> defines its own), so the comparison is the one every Python object
  has: two references are equal when they are the same instance.
\<close>

definition VariableState_eq :: "addr \<Rightarrow> addr \<Rightarrow> bool" where
  "VariableState_eq s1 s2 = (s1 = s2)"

text \<open>The spec's words for the equality of snapshots: type, value and metadata match.\<close>

definition spec_value_equal :: "('a, 'h) heap \<Rightarrow> addr \<Rightarrow> addr \<Rightarrow> bool" where
  "spec_value_equal h s1 s2 =
     (case (variable_state_at h s1, variable_state_at h s2) of
        (Some d1, Some d2) \<Rightarrow>
          d1 ''type'' = d2 ''type'' \<and> d1 ''value'' = d2 ''value'' \<and>
          VariableState_get_metadata d1 = VariableState_get_metadata d2
      | _ \<Rightarrow> False)"

subsection \<open>Hooks as a fold\<close>


subsection \<open>Example heaps\<close>




definition two_heap :: "(int, int) heap" where
  "two_heap =
     [Variable ''Param'' [''raw_value'' \<mapsto> Val 1, ''_trace_state'' \<mapsto> TraceState 0],
      Variable ''BatchStat'' [''raw_value'' \<mapsto> Val 2, ''_trace_state'' \<mapsto> TraceState 0],
      Variable ''Param'' [''raw_value'' \<mapsto> Val 3, ''_trace_state'' \<mapsto> TraceState 7]]"






text \<open>Two \<^verbatim>\<open>Param\<close>s with different hooks, and a \<^verbatim>\<open>BatchStat\<close>.\<close>

definition replace_heap :: "(int, int) heap" where
  "replace_heap =
     [Variable ''Param'' [''raw_value'' \<mapsto> Val 1, ''_trace_state'' \<mapsto> TraceState 0,
        ''get_value_hooks'' \<mapsto> Tuple [3]],
      Variable ''Param'' [''raw_value'' \<mapsto> Val 2, ''_trace_state'' \<mapsto> TraceState 0,
        ''get_value_hooks'' \<mapsto> Tuple []],
      Variable ''BatchStat'' [''raw_value'' \<mapsto> Val 2, ''_trace_state'' \<mapsto> TraceState 0,
        ''get_value_hooks'' \<mapsto> Tuple []]]"

section \<open>The flatten/unflatten engine\<close>

text \<open>
  The engine (module \<^verbatim>\<open>flax.nnx.graph\<close>: \<^verbatim>\<open>flatten\<close>, \<^verbatim>\<open>unflatten\<close>, \<^verbatim>\<open>GraphDef\<close>,
  \<^verbatim>\<open>State\<close>, \<^verbatim>\<open>RefMap\<close>) is not among the sources; only its tests are.  This section
  writes it down from the spec (sections 3, 4.2 and 4.3), over the heap of the sections
  above and with the \<^verbatim>\<open>to_state\<close>, \<^verbatim>\<open>to_variable\<close> and \<^verbatim>\<open>update_from_state\<close> of
  variablelib.py.

  A graph node is an object \<open>Node t children\<close>: a type tag and its children, the
  (key, child) pairs in the canonical order of the traversal (the declared field order
  of a structured object, the index order of a sequence).  A child is a reference to a
  Variable or to a node, or any other value, which the engine treats as an opaque leaf.
\<close>

definition node_at ::
  "('a, 'h) heap \<Rightarrow> addr \<Rightarrow> (string \<times> (string \<times> ('a, 'h) pyval) list) option" where
  "node_at h a =
     (if a < length h then (case h ! a of Node t children \<Rightarrow> Some (t, children) | _ \<Rightarrow> None)
      else None)"

text \<open>
  Modelled from the spec: the type \<^verbatim>\<open>GraphDef\<close>.  A \<open>NodeDef\<close> records a type tag, the
  identity index of the node and its (key, child) pairs; a child is a GraphDef or the
  index of a leaf-variable slot (\<open>VariableDef\<close>).  A \<open>NodeRef\<close> records only the index
  of a node emitted earlier.  A \<open>LeafDef\<close> holds an opaque leaf.
\<close>

datatype ('a, 'h) graphdef =
    NodeDef string nat "(string \<times> ('a, 'h) graphdef) list"
  | NodeRef nat
  | VariableDef nat
  | LeafDef "('a, 'h) pyval"

text \<open>
  Modelled from the spec: the type \<^verbatim>\<open>State\<close>, an ordered mapping from structural paths
  (the keys from the root) to VariableState snapshots.  A snapshot is plain data, so the
  State holds it by value: the attributes of the VariableState.
\<close>

type_synonym path = "string list"
type_synonym ('a, 'h) state = "(path \<times> ('a, 'h) pydict) list"

text \<open>
  Modelled from the spec: the type \<^verbatim>\<open>RefMap\<close>, from object identity to an integer
  index, append-only during a flatten pass.  It is the list of the objects seen so far;
  the index of an object is its position, and the next index is the length.
\<close>

fun index_of :: "addr list \<Rightarrow> addr \<Rightarrow> nat option" where
  "index_of [] a = None"
| "index_of (b # bs) a = (if a = b then Some 0 else map_option Suc (index_of bs a))"

text \<open>
  Modelled from the spec: \<^verbatim>\<open>flatten\<close> (section 4.2), depth first over the children in
  their order.  A Variable not seen before gets the next index, a leaf-variable slot in
  its parent and the entry \<^verbatim>\<open>(path, variable.to_state())\<close> in the State; a Variable seen
  before gets the slot with its index and no entry.  A node not seen before gets the
  next index and a \<open>NodeDef\<close> with its flattened children; a node seen before gets a
  \<open>NodeRef\<close> and is not entered again.  Anything else is a leaf.  The result is the
  GraphDef, the RefMap after the pass and the entries added to the State, in traversal
  order.

  The recursion into a node is bounded by \<open>fuel\<close>, the number of nested nodes it may
  still enter; running out of it is Python's \<^verbatim>\<open>RecursionError\<close>.
\<close>

fun flatten_node ::
  "nat \<Rightarrow> ('a, 'h) heap \<Rightarrow> addr list \<Rightarrow> path \<Rightarrow> ('a, 'h) pyval \<Rightarrow>
     error + (('a, 'h) graphdef \<times> addr list \<times> ('a, 'h) state)"
and flatten_children ::
  "nat \<Rightarrow> ('a, 'h) heap \<Rightarrow> addr list \<Rightarrow> path \<Rightarrow> (string \<times> ('a, 'h) pyval) list \<Rightarrow>
     error + ((string \<times> ('a, 'h) graphdef) list \<times> addr list \<times> ('a, 'h) state)"
where
  "flatten_node fuel h ref_index path (Obj a) =
     (if a < length h then
        (case h ! a of
           Variable c d \<Rightarrow>
             (case index_of ref_index a of
                Some i \<Rightarrow> Inr (VariableDef i, ref_index, [])
              | None \<Rightarrow>
                  (case Variable_to_state_vars c d of
                     Inl e \<Rightarrow> Inl e
                   | Inr sd \<Rightarrow> Inr (VariableDef (length ref_index), ref_index @ [a], [(path, sd)])))
         | Node t children \<Rightarrow>
             (case index_of ref_index a of
                Some i \<Rightarrow> Inr (NodeRef i, ref_index, [])
              | None \<Rightarrow>
                  (case fuel of
                     0 \<Rightarrow> Inl RecursionError
                   | Suc n \<Rightarrow>
                       (case flatten_children n h (ref_index @ [a]) path children of
                          Inl e \<Rightarrow> Inl e
                        | Inr (gs, ref_index', st) \<Rightarrow>
                            Inr (NodeDef t (length ref_index) gs, ref_index', st))))
         | VariableState sd \<Rightarrow> Inr (LeafDef (Obj a), ref_index, []))
      else Inr (LeafDef (Obj a), ref_index, []))"
| "flatten_node fuel h ref_index path x = Inr (LeafDef x, ref_index, [])"
| "flatten_children fuel h ref_index path [] = Inr ([], ref_index, [])"
| "flatten_children fuel h ref_index path ((key, x) # rest) =
     (case flatten_node fuel h ref_index (path @ [key]) x of
        Inl e \<Rightarrow> Inl e
      | Inr (g, ref_index1, st1) \<Rightarrow>
          (case flatten_children fuel h ref_index1 path rest of
             Inl e \<Rightarrow> Inl e
           | Inr (gs, ref_index2, st2) \<Rightarrow> Inr ((key, g) # gs, ref_index2, st1 @ st2)))"

text \<open>
  Modelled from the spec: the call \<^verbatim>\<open>flatten(root, ref_index)\<close>.  The heap has
  \<open>length h\<close> objects, so no chain of nested nodes entered for the first time is longer
  than that: the fuel \<open>length h\<close> is never used up (\<open>flatten_total\<close> below).
\<close>

definition flatten ::
  "('a, 'h) heap \<Rightarrow> addr list \<Rightarrow> ('a, 'h) pyval \<Rightarrow>
     error + (('a, 'h) graphdef \<times> addr list \<times> ('a, 'h) state)" where
  "flatten h ref_index root = flatten_node (length h) h ref_index [] root"

text \<open>
  Modelled from the spec: attaching the rebuilt children to a node, the last step of a
  \<open>NodeDef\<close>.  A node taken from the cache has its children replaced by the rebuilt
  ones (it is mutated in place).
\<close>

definition set_fields ::
  "('a, 'h) heap \<Rightarrow> addr \<Rightarrow> (string \<times> ('a, 'h) pyval) list \<Rightarrow> ('a, 'h) heap" where
  "set_fields h a children =
     (case h ! a of Node t old \<Rightarrow> h[a := Node t children] | _ \<Rightarrow> h)"

text \<open>
  Modelled from the spec: \<^verbatim>\<open>unflatten\<close> (section 4.3), depth first.  A \<open>NodeDef\<close>
  allocates a new instance of its type with no children yet, or, when its index is in
  \<open>cache\<close> (\<^verbatim>\<open>index_ref_cache\<close>), takes the existing object; registers it under its
  index in \<open>index_ref\<close>; rebuilds the children; attaches them.  A \<open>NodeRef\<close> is looked
  up in \<open>index_ref\<close>; an index that is not registered is a StructureCorruption.  A
  leaf-variable slot whose index is registered is that Variable again (a shared
  Variable); otherwise its State entry is read, and a missing entry is the
  StructureMismatch error ("expected key not found"); the Variable is then the cached
  one, updated in place by \<^verbatim>\<open>update_from_state\<close>, or a new one built by
  \<^verbatim>\<open>to_variable\<close>.  The result is the root, the heap and \<open>index_ref\<close>.
\<close>

fun unflatten_node ::
  "nat \<Rightarrow> ('a, 'h) heap \<Rightarrow> (nat \<Rightarrow> addr option) \<Rightarrow> (nat \<Rightarrow> addr option) \<Rightarrow> ('a, 'h) state \<Rightarrow>
     path \<Rightarrow> ('a, 'h) graphdef \<Rightarrow>
     error + (('a, 'h) pyval \<times> ('a, 'h) heap \<times> (nat \<Rightarrow> addr option))"
and unflatten_children ::
  "nat \<Rightarrow> ('a, 'h) heap \<Rightarrow> (nat \<Rightarrow> addr option) \<Rightarrow> (nat \<Rightarrow> addr option) \<Rightarrow> ('a, 'h) state \<Rightarrow>
     path \<Rightarrow> (string \<times> ('a, 'h) graphdef) list \<Rightarrow>
     error + ((string \<times> ('a, 'h) pyval) list \<times> ('a, 'h) heap \<times> (nat \<Rightarrow> addr option))"
where
  "unflatten_node cur h index_ref cache st path (NodeRef i) =
     (case index_ref i of
        None \<Rightarrow> Inl StructureCorruption
      | Some a \<Rightarrow> Inr (Obj a, h, index_ref))"
| "unflatten_node cur h index_ref cache st path (LeafDef x) = Inr (x, h, index_ref)"
| "unflatten_node cur h index_ref cache st path (VariableDef i) =
     (case index_ref i of
        Some a \<Rightarrow> Inr (Obj a, h, index_ref)
      | None \<Rightarrow>
          (case map_of st path of
             None \<Rightarrow> Inl StructureMismatch
           | Some sd \<Rightarrow>
               (case cache i of
                  Some a \<Rightarrow>
                    (case Variable_update_from_state_vars h a sd of
                       (Inl e, h') \<Rightarrow> Inl e
                     | (Inr u, h') \<Rightarrow> Inr (Obj a, h', index_ref(i \<mapsto> a)))
                | None \<Rightarrow>
                    (case VariableState_to_variable_obj cur sd of
                       Inl e \<Rightarrow> Inl e
                     | Inr variable \<Rightarrow>
                         (case alloc h variable of
                            (a, h') \<Rightarrow> Inr (Obj a, h', index_ref(i \<mapsto> a)))))))"
| "unflatten_node cur h index_ref cache st path (NodeDef t i children) =
     (case (case cache i of
              Some a \<Rightarrow>
                (case node_at h a of
                   Some node \<Rightarrow> Inr (a, h)
                 | None \<Rightarrow> Inl (TypeError ''index_ref_cache''))
            | None \<Rightarrow> Inr (alloc h (Node t []))) of
        Inl e \<Rightarrow> Inl e
      | Inr (a, h1) \<Rightarrow>
          (case unflatten_children cur h1 (index_ref(i \<mapsto> a)) cache st path children of
             Inl e \<Rightarrow> Inl e
           | Inr (fields, h2, index_ref2) \<Rightarrow> Inr (Obj a, set_fields h2 a fields, index_ref2)))"
| "unflatten_children cur h index_ref cache st path [] = Inr ([], h, index_ref)"
| "unflatten_children cur h index_ref cache st path ((key, g) # rest) =
     (case unflatten_node cur h index_ref cache st (path @ [key]) g of
        Inl e \<Rightarrow> Inl e
      | Inr (x, h1, index_ref1) \<Rightarrow>
          (case unflatten_children cur h1 index_ref1 cache st path rest of
             Inl e \<Rightarrow> Inl e
           | Inr (fields, h2, index_ref2) \<Rightarrow> Inr ((key, x) # fields, h2, index_ref2)))"

text \<open>Modelled from the spec: the paths of the leaf-variable slots of a GraphDef, the
  keys a State may have.\<close>

fun variable_paths :: "path \<Rightarrow> ('a, 'h) graphdef \<Rightarrow> path list"
and variable_paths_children :: "path \<Rightarrow> (string \<times> ('a, 'h) graphdef) list \<Rightarrow> path list"
where
  "variable_paths path (VariableDef i) = [path]"
| "variable_paths path (NodeDef t i children) = variable_paths_children path children"
| "variable_paths path (NodeRef i) = []"
| "variable_paths path (LeafDef x) = []"
| "variable_paths_children path [] = []"
| "variable_paths_children path ((key, g) # rest) =
     variable_paths (path @ [key]) g @ variable_paths_children path rest"

text \<open>
  Modelled from the spec: the call
  \<^verbatim>\<open>unflatten(graphdef, state, index_ref, index_ref_cache)\<close>.  A State path with no
  leaf-variable slot in the GraphDef is a StructureMismatch as well.
\<close>

definition unflatten ::
  "nat \<Rightarrow> ('a, 'h) heap \<Rightarrow> ('a, 'h) graphdef \<Rightarrow> ('a, 'h) state \<Rightarrow> (nat \<Rightarrow> addr option) \<Rightarrow>
     (nat \<Rightarrow> addr option) \<Rightarrow> error + (('a, 'h) pyval \<times> ('a, 'h) heap \<times> (nat \<Rightarrow> addr option))" where
  "unflatten cur h graphdef st index_ref index_ref_cache =
     (if list_all (\<lambda>p. p \<in> set (variable_paths [] graphdef)) (map fst st)
      then unflatten_node cur h index_ref index_ref_cache st [] graphdef
      else Inl StructureMismatch)"





subsection \<open>Paths of a live graph and well-formed inputs\<close>

text \<open>The value reached from \<open>x\<close> along a path of keys (\<^verbatim>\<open>g[k1][k2]...\<close>).\<close>

fun resolve :: "('a, 'h) heap \<Rightarrow> ('a, 'h) pyval \<Rightarrow> path \<Rightarrow> ('a, 'h) pyval option" where
  "resolve h x [] = Some x"
| "resolve h x (key # path) =
     (case x of
        Obj a \<Rightarrow>
          (case node_at h a of
             Some (t, children) \<Rightarrow>
               (case map_of children key of Some y \<Rightarrow> resolve h y path | None \<Rightarrow> None)
           | None \<Rightarrow> None)
      | _ \<Rightarrow> None)"

text \<open>The keys of a node are distinct.\<close>

definition distinct_fields :: "('a, 'h) heap \<Rightarrow> bool" where
  "distinct_fields h =
     list_all (\<lambda>ob. case ob of Node t cs \<Rightarrow> distinct (map fst cs) | _ \<Rightarrow> True) h"

text \<open>Every Variable of the heap has a snapshot: \<^verbatim>\<open>to_state\<close> does not raise.\<close>

definition snapshots :: "('a, 'h) heap \<Rightarrow> bool" where
  "snapshots h =
     list_all (\<lambda>ob. case ob of
                      Variable c d \<Rightarrow> (case Variable_to_state_vars c d of Inl e \<Rightarrow> False | Inr sd \<Rightarrow> True)
                    | _ \<Rightarrow> True) h"



subsection \<open>Notions for the proofs about the engine\<close>

text \<open>The objects the traversal visits: Variables and graph nodes.\<close>

definition is_graph_object :: "('a, 'h) heap \<Rightarrow> addr \<Rightarrow> bool" where
  "is_graph_object h a = (variable_at h a \<noteq> None \<or> node_at h a \<noteq> None)"

definition is_variable :: "('a, 'h) heap \<Rightarrow> addr \<Rightarrow> bool" where
  "is_variable h a = (variable_at h a \<noteq> None)"

text \<open>A value refers to no graph object outside the RefMap; every child of a node does
  so; a RefMap extends another by new, distinct graph objects whose children are all
  in it.\<close>

definition refs_in :: "('a, 'h) heap \<Rightarrow> addr list \<Rightarrow> ('a, 'h) pyval \<Rightarrow> bool" where
  "refs_in h rm x = (\<forall>a. x = Obj a \<longrightarrow> is_graph_object h a \<longrightarrow> a \<in> set rm)"

definition closed_node :: "('a, 'h) heap \<Rightarrow> addr list \<Rightarrow> addr \<Rightarrow> bool" where
  "closed_node h rm a =
     (\<forall>t cs. node_at h a = Some (t, cs) \<longrightarrow> (\<forall>(k, y) \<in> set cs. refs_in h rm y))"

definition extends :: "('a, 'h) heap \<Rightarrow> addr list \<Rightarrow> addr list \<Rightarrow> bool" where
  "extends h rm rm' =
     (\<exists>new. rm' = rm @ new \<and> distinct new \<and> (\<forall>a \<in> set new. is_graph_object h a \<and> a \<notin> set rm)
        \<and> (\<forall>a \<in> set new. closed_node h rm' a))"

text \<open>The nodes not entered yet: their number bounds the fuel still needed.\<close>

definition unseen :: "('a, 'h) heap \<Rightarrow> addr list \<Rightarrow> addr set" where
  "unseen h rm = {a. a < length h \<and> node_at h a \<noteq> None \<and> a \<notin> set rm}"

text \<open>\<open>index_ref\<close> holds exactly the indices below \<open>n\<close>.\<close>

definition registered :: "(nat \<Rightarrow> addr option) \<Rightarrow> nat \<Rightarrow> bool" where
  "registered ir n = (\<forall>i. (ir i \<noteq> None) = (i < n))"


text \<open>The State entry \<open>e\<close> was emitted for the Variable \<open>a\<close>: its path leads from \<open>x\<close>
  to \<open>a\<close> and it holds the snapshot of \<open>a\<close>.\<close>

definition entry_of ::
  "('a, 'h) heap \<Rightarrow> path \<Rightarrow> ('a, 'h) pyval \<Rightarrow> path \<times> ('a, 'h) pydict \<Rightarrow> addr \<Rightarrow> bool" where
  "entry_of h path x e a =
     (\<exists>q c d. fst e = path @ q \<and> resolve h x q = Some (Obj a) \<and> variable_at h a = Some (c, d)
        \<and> Variable_to_state_vars c d = Inr (snd e))"




text \<open>Unflatten without a cache: the value that stands for \<open>x\<close> in the rebuilt graph (a
  reference to a Variable or a node becomes the reference to the object rebuilt for
  its index), the object rebuilt from an object, and the outcome of a call.\<close>

definition image_of ::
  "('a, 'h) heap \<Rightarrow> addr list \<Rightarrow> (nat \<Rightarrow> addr option) \<Rightarrow> ('a, 'h) pyval \<Rightarrow> ('a, 'h) pyval" where
  "image_of h rm ir x =
     (case x of
        Obj a \<Rightarrow>
          if is_graph_object h a
          then (case index_of rm a of
                  Some i \<Rightarrow> (case ir i of Some b \<Rightarrow> Obj b | None \<Rightarrow> x)
                | None \<Rightarrow> x)
          else x
      | _ \<Rightarrow> x)"

definition rebuilt_obj ::
  "nat \<Rightarrow> ('a, 'h) heap \<Rightarrow> addr list \<Rightarrow> (nat \<Rightarrow> addr option) \<Rightarrow> ('a, 'h) obj \<Rightarrow> ('a, 'h) obj \<Rightarrow> bool" where
  "rebuilt_obj cur h rm ir ob ob' =
     (case ob of
        Variable c d \<Rightarrow> ob' = Variable c (d(''_trace_state'' \<mapsto> new_TraceState cur))
      | Node t cs \<Rightarrow> ob' = Node t (map (\<lambda>(k, y). (k, image_of h rm ir y)) cs)
      | VariableState sd \<Rightarrow> False)"

definition fresh_ok ::
  "nat \<Rightarrow> ('a, 'h) heap \<Rightarrow> ('a, 'h) heap \<Rightarrow> addr list \<Rightarrow> addr list \<Rightarrow> (nat \<Rightarrow> addr option) \<Rightarrow>
     (error + ('r \<times> ('a, 'h) heap \<times> (nat \<Rightarrow> addr option))) \<Rightarrow> ((nat \<Rightarrow> addr option) \<Rightarrow> 'r) \<Rightarrow> bool" where
  "fresh_ok cur h H rm rm' ir r f =
     (\<exists>H' ir'. r = Inr (f ir', H', ir') \<and> registered ir' (length rm')
        \<and> (\<forall>i < length rm. ir' i = ir i)
        \<and> length H \<le> length H' \<and> (\<forall>b < length H. H' ! b = H ! b)
        \<and> (\<forall>i. length rm \<le> i \<longrightarrow> i < length rm' \<longrightarrow>
              (\<exists>b. ir' i = Some b \<and> length H \<le> b \<and> b < length H'
                 \<and> rebuilt_obj cur h rm' ir' (h ! (rm' ! i)) (H' ! b))))"

subsection \<open>Example graphs\<close>

text \<open>\<^verbatim>\<open>v = Param(1); g = [v, v]\<close> (test_shared_variables): the Variable at address 0, the
  list at address 1.\<close>

definition shared_heap :: "(int, int) heap" where
  "shared_heap =
     [Variable ''Param'' [''raw_value'' \<mapsto> Val 1, ''_trace_state'' \<mapsto> TraceState 0,
        ''get_value_hooks'' \<mapsto> Tuple []],
      Node ''list'' [(''0'', Obj 0), (''1'', Obj 0)]]"







section \<open>Properties of variablelib.py\<close>

lemma variable_atD:
  "variable_at h a = Some (c, d) \<Longrightarrow> a < length h \<and> h ! a = Variable c d"
  by (auto simp: variable_at_def split: if_splits obj.splits)










text \<open>
  C8.  \<^verbatim>\<open>a.copy_from(b)\<close> for two Variables (each carrying its \<^verbatim>\<open>_trace_state\<close>, as
  every constructor sets it).  When their classes differ the call raises the
  \<^verbatim>\<open>ValueError\<close> "Cannot copy from incompatible container" (the spec's TypeMismatch)
  and the heap, so every attribute of \<open>a\<close>, is unchanged.  When they agree the call
  returns and the copy has been made: \<open>a\<close> holds exactly the attributes of \<open>b\<close>, with
  its own \<^verbatim>\<open>_trace_state\<close>, and no other object has changed (nothing at all when \<open>b\<close>
  is \<open>a\<close>).
\<close>

theorem copy_from_type_compatibility:
  assumes "variable_at h a = Some (ca, da)"
    and "variable_at h b = Some (cb, db)"
    and "da ''_trace_state'' = Some trace_state"
    and "db ''_trace_state'' \<noteq> None"
  shows "Variable_copy_from h a b =
           (if ca = cb
            then (Inr (), if a = b then h
                          else h[a := Variable ca (db(''_trace_state'' \<mapsto> trace_state))])
            else (Inl (ValueError ''Cannot copy from incompatible container''), h))"
proof -
  from assms(1) have la: "a < length h" and oa: "h ! a = Variable ca da"
    by (simp_all add: variable_atD)
  from assms(2) have lb: "b < length h" and ob: "h ! b = Variable cb db"
    by (simp_all add: variable_atD)
  show ?thesis
    using assms la oa lb ob by (auto simp: Variable_copy_from_def)
qed

theorem copy_from_type_compatibility_witness:
  "variable_at two_heap 0 \<noteq> None \<and> variable_at two_heap 1 \<noteq> None \<and> variable_at two_heap 2 \<noteq> None
   \<and> Variable_copy_from two_heap 0 1
        = (Inl (ValueError ''Cannot copy from incompatible container''), two_heap)
   \<and> Variable_copy_from two_heap 0 2
        = (Inr (), [Variable ''Param'' [''raw_value'' \<mapsto> Val 3, ''_trace_state'' \<mapsto> TraceState 0],
                    two_heap ! 1, two_heap ! 2])
   \<and> map_option (\<lambda>(c, d). (c, d ''raw_value'', d ''_trace_state''))
        (variable_at (snd (Variable_copy_from two_heap 0 2)) 0)
      = Some (''Param'', Some (Val 3), Some (TraceState 0))"
proof -
  have a: "variable_at two_heap 0 =
      Some (''Param'', [''raw_value'' \<mapsto> Val 1, ''_trace_state'' \<mapsto> TraceState 0])"
    and b: "variable_at two_heap 1 =
      Some (''BatchStat'', [''raw_value'' \<mapsto> Val 2, ''_trace_state'' \<mapsto> TraceState 0])"
    and c: "variable_at two_heap 2 =
      Some (''Param'', [''raw_value'' \<mapsto> Val 3, ''_trace_state'' \<mapsto> TraceState 7])"
    by (simp_all add: two_heap_def variable_at_def)
  have 1: "Variable_copy_from two_heap 0 1
        = (Inl (ValueError ''Cannot copy from incompatible container''), two_heap)"
    using copy_from_type_compatibility [OF a b] by simp
  have 2: "Variable_copy_from two_heap 0 2
        = (Inr (), two_heap[0 := Variable ''Param''
             ([''raw_value'' \<mapsto> Val 3, ''_trace_state'' \<mapsto> TraceState 7,
               ''_trace_state'' \<mapsto> TraceState 0])])"
    using copy_from_type_compatibility [OF a c] by simp
  have 3: "[''raw_value'' \<mapsto> Val 3, ''_trace_state'' \<mapsto> TraceState 7,
               ''_trace_state'' \<mapsto> TraceState 0]
           = ([''raw_value'' \<mapsto> Val 3, ''_trace_state'' \<mapsto> TraceState 0] :: (int, int) pydict)"
    by simp
  show ?thesis
    unfolding 1 2 3 by (simp add: two_heap_def variable_at_def)
qed







text \<open>
  C6 as stated fails: \<^verbatim>\<open>v.replace(w)\<close> with \<open>w\<close> a Variable of the class of \<open>v\<close> returns
  \<open>w\<close> itself, an instance that exists already and carries its own hooks, not those of
  \<open>v\<close>; nothing is allocated.
\<close>

theorem replace_counterexample:
  "variable_at replace_heap 0 \<noteq> None
   \<and> Variable_replace replace_heap 0 (Some (Obj 1)) Map.empty = (Inr 1, replace_heap)
   \<and> 1 < length replace_heap
   \<and> map_option (\<lambda>(c, d). d ''get_value_hooks'') (variable_at replace_heap 0) = Some (Some (Tuple [3]))
   \<and> map_option (\<lambda>(c, d). d ''get_value_hooks'') (variable_at replace_heap 1) = Some (Some (Tuple []))"
  by (simp add: replace_heap_def variable_at_def Variable_replace_def isinstance_Variable_def Let_def)

lemma replace_fresh:
  assumes "variable_at h v = Some (c, d)"
    and "kwargs ''value'' = None"
    and "kw = (case value of None \<Rightarrow> kwargs | Some x \<Rightarrow> kwargs(''raw_value'' \<mapsto> x))"
    and "case kw ''raw_value'' of None \<Rightarrow> True | Some x \<Rightarrow> \<not> isinstance_Variable h x"
  shows "Variable_replace h v value kwargs = (Inr (length h), h @ [Variable c (d ++ kw)])"
proof -
  have kv: "kw ''value'' = None"
    using assms(2,3) by (simp split: option.splits)
  have r: "Variable_replace_attributes h v kw = (Inr (length h), h @ [Variable c (d ++ kw)])"
    using assms(1) by (simp add: Variable_replace_attributes_def alloc_def)
  have "Variable_replace h v value kwargs = Variable_replace_attributes h v kw"
  proof (cases "kw ''raw_value''")
    case None
    then show ?thesis
      using assms(1,2) kv assms(3) [symmetric] by (simp add: Variable_replace_def Let_def)
  next
    case (Some x)
    with assms(4) have nx: "\<not> isinstance_Variable h x" by simp
    show ?thesis
      using assms(1,2) kv assms(3) [symmetric] Some nx
      by (cases x) (auto simp: Variable_replace_def Let_def)
  qed
  with r show ?thesis by simp
qed

lemma replace_by_variable:
  assumes "variable_at h v = Some (c, d)"
    and "variable_at h w = Some (cw, dw)"
  shows "Variable_replace h v (Some (Obj w)) Map.empty =
           (if cw = c then (Inr w, h)
            else (Inl (ValueError ''Cannot replace value from incompatible container''), h))"
proof -
  from assms(1) have "v < length h" "h ! v = Variable c d" by (simp_all add: variable_atD)
  moreover from assms(2) have "w < length h" "h ! w = Variable cw dw" by (simp_all add: variable_atD)
  ultimately show ?thesis
    using assms by (auto simp: Variable_replace_def Let_def isinstance_Variable_def)
qed

text \<open>
  C6, amended.  \<^verbatim>\<open>v.replace(value, **kwargs)\<close> where the new raw value (if one is
  given) is not a Variable returns a newly allocated Variable of the class of \<open>v\<close>
  whose attributes are those of \<open>v\<close> updated by the arguments (\<^verbatim>\<open>raw_value\<close> set to the
  value, every keyword overriding the attribute it names, so the hooks of \<open>v\<close> are kept
  unless a keyword names them); \<open>v\<close> and every other object are unchanged.
  \<^verbatim>\<open>v.replace(w)\<close> with \<open>w\<close> a Variable returns \<open>w\<close> itself when it has the class of \<open>v\<close>
  and raises the \<^verbatim>\<open>ValueError\<close> "Cannot replace value from incompatible container"
  otherwise; the heap is unchanged.
\<close>

theorem replace_result:
  assumes "variable_at h v = Some (c, d)"
    and "kwargs ''value'' = None"
    and "kw = (case value of None \<Rightarrow> kwargs | Some x \<Rightarrow> kwargs(''raw_value'' \<mapsto> x))"
  shows "((case kw ''raw_value'' of None \<Rightarrow> True | Some x \<Rightarrow> \<not> isinstance_Variable h x) \<longrightarrow>
            (\<exists>v' h'. Variable_replace h v value kwargs = (Inr v', h')
               \<and> \<not> v' < length h
               \<and> variable_at h' v' = Some (c, d ++ kw)
               \<and> take (length h) h' = h))
       \<and> (\<forall>w cw dw. variable_at h w = Some (cw, dw) \<longrightarrow>
            Variable_replace h v (Some (Obj w)) Map.empty =
              (if cw = c then (Inr w, h)
               else (Inl (ValueError ''Cannot replace value from incompatible container''), h)))"
proof (intro conjI impI allI)
  assume a: "case kw ''raw_value'' of None \<Rightarrow> True | Some x \<Rightarrow> \<not> isinstance_Variable h x"
  have "Variable_replace h v value kwargs = (Inr (length h), h @ [Variable c (d ++ kw)])"
    using assms a by (rule replace_fresh)
  moreover have "variable_at (h @ [Variable c (d ++ kw)]) (length h) = Some (c, d ++ kw)"
    by (simp add: variable_at_def)
  ultimately show "\<exists>v' h'. Variable_replace h v value kwargs = (Inr v', h')
               \<and> \<not> v' < length h
               \<and> variable_at h' v' = Some (c, d ++ kw)
               \<and> take (length h) h' = h"
    by simp
next
  fix w cw dw
  assume "variable_at h w = Some (cw, dw)"
  with assms(1) show "Variable_replace h v (Some (Obj w)) Map.empty =
              (if cw = c then (Inr w, h)
               else (Inl (ValueError ''Cannot replace value from incompatible container''), h))"
    by (rule replace_by_variable)
qed

theorem replace_result_witness:
  "variable_at replace_heap 0 \<noteq> None \<and> variable_at replace_heap 1 \<noteq> None
   \<and> variable_at replace_heap 2 \<noteq> None \<and> \<not> isinstance_Variable replace_heap (Val 5)
   \<and> (\<exists>v' h'. Variable_replace replace_heap 0 (Some (Val 5)) [''sharding'' \<mapsto> Val 6] = (Inr v', h')
        \<and> \<not> v' < length replace_heap
        \<and> map_option (\<lambda>(c, d). (c, d ''raw_value'', d ''sharding'', d ''get_value_hooks''))
            (variable_at h' v')
            = Some (''Param'', Some (Val 5), Some (Val 6), Some (Tuple [3]))
        \<and> take (length replace_heap) h' = replace_heap)
   \<and> Variable_replace replace_heap 0 (Some (Obj 1)) Map.empty = (Inr 1, replace_heap)
   \<and> Variable_replace replace_heap 0 (Some (Obj 2)) Map.empty =
       (Inl (ValueError ''Cannot replace value from incompatible container''), replace_heap)"
proof -
  let ?d = "[''raw_value'' \<mapsto> Val 1, ''_trace_state'' \<mapsto> TraceState 0,
            ''get_value_hooks'' \<mapsto> Tuple [3]] :: (int, int) pydict"
  let ?kw = "[''sharding'' \<mapsto> Val 6, ''raw_value'' \<mapsto> Val 5] :: (int, int) pydict"
  have v: "variable_at replace_heap 0 = Some (''Param'', ?d)"
    by (simp add: replace_heap_def variable_at_def)
  have w1: "variable_at replace_heap 1 = Some (''Param'', [''raw_value'' \<mapsto> Val 2,
        ''_trace_state'' \<mapsto> TraceState 0, ''get_value_hooks'' \<mapsto> Tuple []])"
    and w2: "variable_at replace_heap 2 = Some (''BatchStat'', [''raw_value'' \<mapsto> Val 2,
        ''_trace_state'' \<mapsto> TraceState 0, ''get_value_hooks'' \<mapsto> Tuple []])"
    by (simp_all add: replace_heap_def variable_at_def)
  have n: "\<not> isinstance_Variable replace_heap (Val 5)"
    by (simp add: isinstance_Variable_def)
  have kw: "?kw = (case Some (Val 5) of None \<Rightarrow> [''sharding'' \<mapsto> Val 6]
                   | Some x \<Rightarrow> [''sharding'' \<mapsto> Val 6, ''raw_value'' \<mapsto> x])"
    by simp
  have k: "[''sharding'' \<mapsto> Val 6 :: (int, int) pyval] ''value'' = None"
    by simp
  note r = replace_result [OF v k kw]
  have pre: "case ?kw ''raw_value'' of None \<Rightarrow> True | Some x \<Rightarrow> \<not> isinstance_Variable replace_heap x"
    using n by simp
  from r pre obtain v' h' where
    1: "Variable_replace replace_heap 0 (Some (Val 5)) [''sharding'' \<mapsto> Val 6] = (Inr v', h')"
    and 2: "\<not> v' < length replace_heap"
    and 3: "variable_at h' v' = Some (''Param'', ?d ++ ?kw)"
    and 4: "take (length replace_heap) h' = replace_heap"
    by blast
  from 3 have 5: "map_option (\<lambda>(c, d). (c, d ''raw_value'', d ''sharding'', d ''get_value_hooks''))
            (variable_at h' v') = Some (''Param'', Some (Val 5), Some (Val 6), Some (Tuple [3]))"
    by simp
  from r w1 have 6: "Variable_replace replace_heap 0 (Some (Obj 1)) Map.empty = (Inr 1, replace_heap)"
    by simp
  from r w2 have 7: "Variable_replace replace_heap 0 (Some (Obj 2)) Map.empty =
       (Inl (ValueError ''Cannot replace value from incompatible container''), replace_heap)"
    by simp
  from 1 2 4 5 have "\<exists>v' h'. Variable_replace replace_heap 0 (Some (Val 5)) [''sharding'' \<mapsto> Val 6] = (Inr v', h')
        \<and> \<not> v' < length replace_heap
        \<and> map_option (\<lambda>(c, d). (c, d ''raw_value'', d ''sharding'', d ''get_value_hooks''))
            (variable_at h' v')
            = Some (''Param'', Some (Val 5), Some (Val 6), Some (Tuple [3]))
        \<and> take (length replace_heap) h' = replace_heap"
    by blast
  with v w1 w2 n 6 7 show ?thesis by simp
qed

text \<open>
  C5 as stated fails: two VariableState instances built from the same type, value and
  metadata match in all three, and \<^verbatim>\<open>==\<close> tells them apart.
\<close>

theorem VariableState_eq_counterexample:
  "VariableState_init ([] :: (int, int) heap) (Type (VariableT ''Param'')) (Val 1) Map.empty
     = (Inr 0, [VariableState [''type'' \<mapsto> Type (VariableT ''Param''), ''value'' \<mapsto> Val 1]])
   \<and> VariableState_init
        [VariableState [''type'' \<mapsto> Type (VariableT ''Param''), ''value'' \<mapsto> Val 1] :: (int, int) obj]
        (Type (VariableT ''Param'')) (Val 1) Map.empty
     = (Inr 1, [VariableState [''type'' \<mapsto> Type (VariableT ''Param''), ''value'' \<mapsto> Val 1],
                VariableState [''type'' \<mapsto> Type (VariableT ''Param''), ''value'' \<mapsto> Val 1]])
   \<and> spec_value_equal
        [VariableState [''type'' \<mapsto> Type (VariableT ''Param''), ''value'' \<mapsto> Val 1],
         VariableState [''type'' \<mapsto> Type (VariableT ''Param''), ''value'' \<mapsto> Val 1] :: (int, int) obj]
        0 1
   \<and> \<not> VariableState_eq 0 1"
  by (simp add: VariableState_init_def VariableState_init_vars_def alloc_def spec_value_equal_def
      variable_state_at_def VariableState_eq_def)

text \<open>
  C5, amended.  \<^verbatim>\<open>s1 == s2\<close> on VariableState instances holds if and only if \<open>s1\<close> and
  \<open>s2\<close> are the same instance.  Two instances built one after the other from the same
  type, value and metadata match in type, value and metadata, and do not compare equal;
  each compares equal to itself.
\<close>

theorem VariableState_eq_identity:
  assumes "VariableState_init h type value metadata = (Inr s1, h1)"
    and "VariableState_init h1 type value metadata = (Inr s2, h2)"
  shows "spec_value_equal h2 s1 s2 \<and> \<not> VariableState_eq s1 s2
       \<and> VariableState_eq s1 s1 \<and> VariableState_eq s2 s2
       \<and> (\<forall>a b. VariableState_eq a b = (a = b))"
proof -
  let ?ob = "VariableState ([''type'' \<mapsto> type, ''value'' \<mapsto> value] ++ metadata)"
  from assms(1) have 1: "s1 = length h" "h1 = h @ [?ob]"
    by (auto simp: VariableState_init_def VariableState_init_vars_def alloc_def split: if_splits)
  from assms(2) have 2: "s2 = length h1" "h2 = h1 @ [?ob]"
    by (auto simp: VariableState_init_def VariableState_init_vars_def alloc_def split: if_splits)
  have "variable_state_at h2 s1 = Some ([''type'' \<mapsto> type, ''value'' \<mapsto> value] ++ metadata)"
    "variable_state_at h2 s2 = Some ([''type'' \<mapsto> type, ''value'' \<mapsto> value] ++ metadata)"
    using 1 2 by (simp_all add: variable_state_at_def nth_append)
  then have "spec_value_equal h2 s1 s2" by (simp add: spec_value_equal_def)
  moreover have "s1 \<noteq> s2" using 1 2 by simp
  ultimately show ?thesis by (simp add: VariableState_eq_def)
qed

theorem VariableState_eq_identity_witness:
  "\<exists>s1 h1 s2 h2.
     VariableState_init ([] :: (int, int) heap) (Type (VariableT ''Param'')) (Val 1)
       [''sharding'' \<mapsto> Val 2] = (Inr s1, h1)
   \<and> VariableState_init h1 (Type (VariableT ''Param'')) (Val 1) [''sharding'' \<mapsto> Val 2] = (Inr s2, h2)
   \<and> spec_value_equal h2 s1 s2 \<and> \<not> VariableState_eq s1 s2"
proof -
  obtain s1 h1 where 1: "VariableState_init ([] :: (int, int) heap) (Type (VariableT ''Param''))
      (Val 1) [''sharding'' \<mapsto> Val 2] = (Inr s1, h1)"
    by (simp add: VariableState_init_def VariableState_init_vars_def alloc_def)
  obtain s2 h2 where 2: "VariableState_init h1 (Type (VariableT ''Param'')) (Val 1)
      [''sharding'' \<mapsto> Val 2] = (Inr s2, h2)"
    by (simp add: VariableState_init_def VariableState_init_vars_def alloc_def)
  from VariableState_eq_identity [OF 1 2] 1 2 show ?thesis by blast
qed

section \<open>Properties of the engine\<close>

subsection \<open>The engine on the example graphs\<close>


lemma shared_heap_flatten:
  "map_sum id (\<lambda>(g, rm, st). (g, rm, map fst st)) (flatten shared_heap [] (Obj 1)) =
     Inr (NodeDef ''list'' 0 [(''0'', VariableDef 1), (''1'', VariableDef 1)], [1, 0], [[''0'']])"
  by (simp add: flatten_def shared_heap_def Variable_to_state_vars_def Variable_get_metadata_def call_get_metadata_def
      VariableState_init_vars_def)


subsection \<open>The RefMap and the cases of flatten\<close>

lemma index_of_None_iff: "index_of rm a = None \<longleftrightarrow> a \<notin> set rm"
  by (induction rm) auto

lemma index_of_SomeD: "index_of rm a = Some i \<Longrightarrow> i < length rm \<and> rm ! i = a"
proof (induction rm arbitrary: i)
  case Nil
  then show ?case by simp
next
  case (Cons b bs)
  then show ?case by (auto split: if_splits)
qed

lemma index_of_append: "a \<in> set rm \<Longrightarrow> index_of (rm @ ext) a = index_of rm a"
  by (induction rm) auto

lemma index_of_append_new: "a \<notin> set rm \<Longrightarrow> index_of (rm @ a # ext) a = Some (length rm)"
  by (induction rm) auto

lemma index_of_nth: "distinct rm \<Longrightarrow> i < length rm \<Longrightarrow> index_of rm (rm ! i) = Some i"
proof (induction rm arbitrary: i)
  case Nil
  then show ?case by simp
next
  case (Cons b bs)
  show ?case
  proof (cases i)
    case 0
    then show ?thesis by simp
  next
    case (Suc j)
    with Cons.prems have "bs ! j \<noteq> b" by auto
    with Cons Suc show ?thesis by simp
  qed
qed

lemma node_atD: "node_at h a = Some (t, cs) \<Longrightarrow> a < length h \<and> h ! a = Node t cs"
  by (auto simp: node_at_def split: if_splits obj.splits)

lemma flatten_node_cases [consumes 1, case_names Leaf VarSeen VarNew NodeSeen NodeNew]:
  assumes "flatten_node fuel h rm path x = Inr (g, rm', es)"
  obtains
    (Leaf) "g = LeafDef x" "rm' = rm" "es = []" "\<forall>a. x = Obj a \<longrightarrow> \<not> is_graph_object h a"
  | (VarSeen) a c d i where "x = Obj a" "variable_at h a = Some (c, d)" "index_of rm a = Some i"
      "g = VariableDef i" "rm' = rm" "es = []"
  | (VarNew) a c d sd where "x = Obj a" "variable_at h a = Some (c, d)" "index_of rm a = None"
      "Variable_to_state_vars c d = Inr sd" "g = VariableDef (length rm)" "rm' = rm @ [a]"
      "es = [(path, sd)]"
  | (NodeSeen) a t cs i where "x = Obj a" "node_at h a = Some (t, cs)" "index_of rm a = Some i"
      "g = NodeRef i" "rm' = rm" "es = []"
  | (NodeNew) a t cs n gs where "x = Obj a" "node_at h a = Some (t, cs)" "index_of rm a = None"
      "fuel = Suc n" "flatten_children n h (rm @ [a]) path cs = Inr (gs, rm', es)"
      "g = NodeDef t (length rm) gs"
proof (cases x)
  case (Obj a)
  show ?thesis
  proof (cases "a < length h")
    case False
    with Obj assms have "g = LeafDef x" "rm' = rm" "es = []" by simp_all
    moreover from False Obj have "\<forall>b. x = Obj b \<longrightarrow> \<not> is_graph_object h b"
      by (simp add: is_graph_object_def variable_at_def node_at_def)
    ultimately show ?thesis by (rule Leaf)
  next
    case True
    show ?thesis
    proof (cases "h ! a")
      case (Variable c d)
      with True have v: "variable_at h a = Some (c, d)" by (simp add: variable_at_def)
      show ?thesis
      proof (cases "index_of rm a")
        case None
        with assms Obj True Variable obtain sd where
          "Variable_to_state_vars c d = Inr sd" "g = VariableDef (length rm)" "rm' = rm @ [a]"
          "es = [(path, sd)]"
          by (auto split: sum.splits)
        with Obj v None show ?thesis by (rule VarNew)
      next
        case (Some i)
        with assms Obj True Variable have "g = VariableDef i" "rm' = rm" "es = []" by simp_all
        with Obj v Some show ?thesis by (rule VarSeen)
      qed
    next
      case (VariableState sd)
      with Obj True assms have "g = LeafDef x" "rm' = rm" "es = []" by simp_all
      moreover from True Obj VariableState have "\<forall>b. x = Obj b \<longrightarrow> \<not> is_graph_object h b"
        by (simp add: is_graph_object_def variable_at_def node_at_def)
      ultimately show ?thesis by (rule Leaf)
    next
      case (Node t cs)
      with True have v: "node_at h a = Some (t, cs)" by (simp add: node_at_def)
      show ?thesis
      proof (cases "index_of rm a")
        case None
        with assms Obj True Node obtain n gs where
          "fuel = Suc n" "flatten_children n h (rm @ [a]) path cs = Inr (gs, rm', es)"
          "g = NodeDef t (length rm) gs"
          by (auto split: sum.splits nat.splits)
        with Obj v None show ?thesis by (rule NodeNew)
      next
        case (Some i)
        with assms Obj True Node have "g = NodeRef i" "rm' = rm" "es = []" by simp_all
        with Obj v Some show ?thesis by (rule NodeSeen)
      qed
    qed
  qed
qed (use assms in \<open>auto intro: Leaf\<close>)

lemma flatten_children_Cons_cases [consumes 1]:
  assumes "flatten_children fuel h rm path ((k, x) # rest) = Inr (gs, rm', es)"
  obtains g rm1 es1 gs' es2 where
    "flatten_node fuel h rm (path @ [k]) x = Inr (g, rm1, es1)"
    "flatten_children fuel h rm1 path rest = Inr (gs', rm', es2)"
    "gs = (k, g) # gs'" "es = es1 @ es2"
  using assms by (auto split: sum.splits)

subsection \<open>The RefMap grows by graph objects whose children are in it\<close>

lemma refs_in_mono: "refs_in h rm x \<Longrightarrow> set rm \<subseteq> set rm' \<Longrightarrow> refs_in h rm' x"
  by (auto simp: refs_in_def)

lemma closed_node_mono: "closed_node h rm a \<Longrightarrow> set rm \<subseteq> set rm' \<Longrightarrow> closed_node h rm' a"
  unfolding closed_node_def refs_in_def by fast

lemma extends_refl: "extends h rm rm"
  by (simp add: extends_def)

lemma extends_subset: "extends h rm rm' \<Longrightarrow> set rm \<subseteq> set rm'"
  by (auto simp: extends_def)

lemma extends_trans:
  assumes "extends h rm rm1" and "extends h rm1 rm2"
  shows "extends h rm rm2"
proof -
  from assms(1) obtain n1 where 1: "rm1 = rm @ n1" "distinct n1"
    "\<forall>a \<in> set n1. is_graph_object h a \<and> a \<notin> set rm" "\<forall>a \<in> set n1. closed_node h rm1 a"
    by (auto simp: extends_def)
  from assms(2) obtain n2 where 2: "rm2 = rm1 @ n2" "distinct n2"
    "\<forall>a \<in> set n2. is_graph_object h a \<and> a \<notin> set rm1" "\<forall>a \<in> set n2. closed_node h rm2 a"
    by (auto simp: extends_def)
  have sub: "set rm1 \<subseteq> set rm2" using 2(1) by auto
  have "rm2 = rm @ (n1 @ n2)" using 1(1) 2(1) by simp
  moreover have "distinct (n1 @ n2)" using 1(1,2) 2(2,3) by auto
  moreover have "\<forall>a \<in> set (n1 @ n2). is_graph_object h a \<and> a \<notin> set rm"
    using 1(1,3) 2(3) by auto
  moreover have "\<forall>a \<in> set (n1 @ n2). closed_node h rm2 a"
    using 1(4) 2(4) closed_node_mono [OF _ sub] by auto
  ultimately show ?thesis unfolding extends_def by blast
qed

lemma variable_not_node: "variable_at h a = Some cd \<Longrightarrow> node_at h a = None"
  by (auto simp: variable_at_def node_at_def split: if_splits obj.splits)

lemma flatten_children_extends:
  assumes node: "\<And>rm path x g rm' es. flatten_node fuel h rm path x = Inr (g, rm', es) \<Longrightarrow>
                   extends h rm rm' \<and> refs_in h rm' x"
    and "flatten_children fuel h rm path cs = Inr (gs, rm', es)"
  shows "extends h rm rm' \<and> (\<forall>(k, y) \<in> set cs. refs_in h rm' y)"
  using assms(2)
proof (induction cs arbitrary: rm gs rm' es)
  case Nil
  then show ?case by (simp add: extends_refl)
next
  case (Cons kx rest)
  obtain k x where kx: "kx = (k, x)" by (cases kx)
  from Cons.prems [unfolded kx] obtain g rm1 es1 gs' es2 where
    1: "flatten_node fuel h rm (path @ [k]) x = Inr (g, rm1, es1)"
    and 2: "flatten_children fuel h rm1 path rest = Inr (gs', rm', es2)"
    by (rule flatten_children_Cons_cases)
  from node [OF 1] have e1: "extends h rm rm1" and r1: "refs_in h rm1 x" by simp_all
  from Cons.IH [OF 2] have e2: "extends h rm1 rm'" and r2: "\<forall>(k, y) \<in> set rest. refs_in h rm' y"
    by simp_all
  from e1 e2 have "extends h rm rm'" by (rule extends_trans)
  moreover from r1 extends_subset [OF e2] have "refs_in h rm' x" by (rule refs_in_mono)
  ultimately show ?case using r2 kx by simp
qed

lemma flatten_node_extends_step:
  assumes ch: "\<And>n rm path cs gs rm' es. fuel = Suc n \<Longrightarrow>
                 flatten_children n h rm path cs = Inr (gs, rm', es) \<Longrightarrow>
                 extends h rm rm' \<and> (\<forall>(k, y) \<in> set cs. refs_in h rm' y)"
    and "flatten_node fuel h rm path x = Inr (g, rm', es)"
  shows "extends h rm rm' \<and> refs_in h rm' x"
  using assms(2)
proof (cases rule: flatten_node_cases)
  case Leaf
  then show ?thesis by (simp add: extends_refl refs_in_def)
next
  case (VarSeen a c d i)
  then show ?thesis by (auto simp: extends_refl refs_in_def dest: index_of_SomeD)
next
  case (VarNew a c d sd)
  have "closed_node h rm' a"
    using variable_not_node [OF VarNew(2)] by (simp add: closed_node_def)
  moreover have "is_graph_object h a" using VarNew(2) by (simp add: is_graph_object_def)
  moreover have "a \<notin> set rm" using VarNew(3) by (simp add: index_of_None_iff)
  ultimately have "extends h rm rm'"
    unfolding extends_def using VarNew(6) by (intro exI [of _ "[a]"]) simp
  moreover have "refs_in h rm' x" using VarNew(1,6) by (simp add: refs_in_def)
  ultimately show ?thesis by simp
next
  case (NodeSeen a t cs i)
  then show ?thesis by (auto simp: extends_refl refs_in_def dest: index_of_SomeD)
next
  case (NodeNew a t cs n gs)
  from ch [OF NodeNew(4,5)] have c: "extends h (rm @ [a]) rm'"
    and r: "\<forall>(k, y) \<in> set cs. refs_in h rm' y" by simp_all
  from c have sub: "set (rm @ [a]) \<subseteq> set rm'" by (rule extends_subset)
  have "closed_node h rm' a"
    using r NodeNew(2) by (simp add: closed_node_def)
  from c obtain new where n: "rm' = (rm @ [a]) @ new" "distinct new"
    "\<forall>b \<in> set new. is_graph_object h b \<and> b \<notin> set (rm @ [a])" "\<forall>b \<in> set new. closed_node h rm' b"
    by (auto simp: extends_def)
  have "rm' = rm @ (a # new)" using n(1) by simp
  moreover have "distinct (a # new)" using n(2,3) by auto
  moreover have "\<forall>b \<in> set (a # new). is_graph_object h b \<and> b \<notin> set rm"
    using n(3) NodeNew(2,3) by (auto simp: is_graph_object_def index_of_None_iff)
  moreover have "\<forall>b \<in> set (a # new). closed_node h rm' b"
    using n(4) \<open>closed_node h rm' a\<close> by auto
  ultimately have "extends h rm rm'" unfolding extends_def by (intro exI [of _ "a # new"]) simp
  moreover have "refs_in h rm' x" using NodeNew(1) sub by (auto simp: refs_in_def)
  ultimately show ?thesis by simp
qed

lemma flatten_node_extends:
  "flatten_node fuel h rm path x = Inr (g, rm', es) \<Longrightarrow> extends h rm rm' \<and> refs_in h rm' x"
proof (induction fuel arbitrary: rm path x g rm' es)
  case 0
  show ?case by (rule flatten_node_extends_step [OF _ "0.prems"]) simp
next
  case (Suc m)
  have node: "\<And>rm path x g rm' es. flatten_node m h rm path x = Inr (g, rm', es) \<Longrightarrow>
                   extends h rm rm' \<and> refs_in h rm' x"
    by (rule Suc.IH)
  show ?case
  proof (rule flatten_node_extends_step [OF _ Suc.prems])
    fix n rm0 path0 cs gs rm0' es0
    assume "Suc m = Suc n" and "flatten_children n h rm0 path0 cs = Inr (gs, rm0', es0)"
    then have fc: "flatten_children m h rm0 path0 cs = Inr (gs, rm0', es0)" by simp
    show "extends h rm0 rm0' \<and> (\<forall>(k, y) \<in> set cs. refs_in h rm0' y)"
      using node fc by (rule flatten_children_extends)
  qed
qed

lemma flatten_children_extends':
  assumes "flatten_children fuel h rm path cs = Inr (gs, rm', es)"
  shows "extends h rm rm' \<and> (\<forall>(k, y) \<in> set cs. refs_in h rm' y)"
proof -
  have "\<And>rm path x g rm' es. flatten_node fuel h rm path x = Inr (g, rm', es) \<Longrightarrow>
          extends h rm rm' \<and> refs_in h rm' x"
    by (rule flatten_node_extends)
  then show ?thesis using assms by (rule flatten_children_extends)
qed

subsection \<open>flatten returns\<close>

lemma snapshotsD:
  "snapshots h \<Longrightarrow> variable_at h a = Some (c, d) \<Longrightarrow> \<exists>sd. Variable_to_state_vars c d = Inr sd"
proof -
  assume s: "snapshots h" and v: "variable_at h a = Some (c, d)"
  from v have a: "a < length h" "h ! a = Variable c d" by (simp_all add: variable_atD)
  from s a(1) have "case h ! a of
      Variable c d \<Rightarrow> (case Variable_to_state_vars c d of Inl e \<Rightarrow> False | Inr sd \<Rightarrow> True)
    | _ \<Rightarrow> True"
    by (simp add: snapshots_def list_all_length)
  with a(2) show ?thesis by (cases "Variable_to_state_vars c d") simp_all
qed

lemma finite_unseen: "finite (unseen h rm)"
  by (rule finite_subset [of _ "{..<length h}"]) (auto simp: unseen_def)

lemma unseen_mono: "set rm \<subseteq> set rm' \<Longrightarrow> card (unseen h rm') \<le> card (unseen h rm)"
  by (rule card_mono [OF finite_unseen]) (auto simp: unseen_def)

lemma unseen_visit:
  assumes "node_at h a = Some (t, cs)" and "a \<notin> set rm"
  shows "card (unseen h rm) = Suc (card (unseen h (rm @ [a])))"
proof -
  from assms(1) have "a < length h" by (simp add: node_atD)
  with assms have a: "a \<in> unseen h rm" by (simp add: unseen_def)
  have "unseen h (rm @ [a]) = unseen h rm - {a}" by (auto simp: unseen_def)
  with card.remove [OF finite_unseen a] show ?thesis by simp
qed

lemma card_unseen_le: "card (unseen h rm) \<le> length h"
proof -
  have "card (unseen h rm) \<le> card {..<length h}"
    by (rule card_mono) (auto simp: unseen_def)
  then show ?thesis by simp
qed

lemma flatten_children_total:
  assumes node: "\<And>rm path x. card (unseen h rm) \<le> fuel \<Longrightarrow> \<exists>r. flatten_node fuel h rm path x = Inr r"
    and "card (unseen h rm) \<le> fuel"
  shows "\<exists>r. flatten_children fuel h rm path cs = Inr r"
  using assms(2)
proof (induction cs arbitrary: rm)
  case Nil
  show ?case by simp
next
  case (Cons kx rest)
  obtain k x where kx: "kx = (k, x)" by (cases kx)
  from node [OF Cons.prems] obtain g rm1 es1 where
    1: "flatten_node fuel h rm (path @ [k]) x = Inr (g, rm1, es1)"
    by (metis prod_cases3)
  from flatten_node_extends [OF 1] have "extends h rm rm1" by simp
  then have "set rm \<subseteq> set rm1" by (rule extends_subset)
  from unseen_mono [OF this, of h] Cons.prems have "card (unseen h rm1) \<le> fuel" by simp
  from Cons.IH [OF this] obtain r where "flatten_children fuel h rm1 path rest = Inr r" ..
  with 1 kx show ?case by (cases r) simp
qed

lemma flatten_node_total_step:
  assumes ch: "\<And>n rm path cs. fuel = Suc n \<Longrightarrow> card (unseen h rm) \<le> n \<Longrightarrow>
                 \<exists>r. flatten_children n h rm path cs = Inr r"
    and s: "snapshots h"
    and u: "card (unseen h rm) \<le> fuel"
  shows "\<exists>r. flatten_node fuel h rm path x = Inr r"
proof (cases x)
  case (Obj a)
  show ?thesis
  proof (cases "a < length h")
    case False
    with Obj show ?thesis by simp
  next
    case True
    show ?thesis
    proof (cases "h ! a")
      case (Variable c d)
      with True have "variable_at h a = Some (c, d)" by (simp add: variable_at_def)
      with s obtain sd where "Variable_to_state_vars c d = Inr sd" by (blast dest: snapshotsD)
      with Obj True Variable show ?thesis by (simp split: option.splits)
    next
      case (VariableState sd)
      with Obj True show ?thesis by simp
    next
      case (Node t cs)
      with True have n: "node_at h a = Some (t, cs)" by (simp add: node_at_def)
      show ?thesis
      proof (cases "index_of rm a")
        case (Some i)
        with Obj True Node show ?thesis by simp
      next
        case None
        then have "a \<notin> set rm" by (simp add: index_of_None_iff)
        from unseen_visit [OF n this] u obtain m where
          m: "fuel = Suc m" and "card (unseen h (rm @ [a])) \<le> m"
          by (cases fuel) simp_all
        from ch [OF this] obtain r where "flatten_children m h (rm @ [a]) path cs = Inr r" ..
        with Obj True Node None m show ?thesis by (cases r) simp
      qed
    qed
  qed
qed simp_all

lemma flatten_node_total:
  "snapshots h \<Longrightarrow> card (unseen h rm) \<le> fuel \<Longrightarrow> \<exists>r. flatten_node fuel h rm path x = Inr r"
proof (induction fuel arbitrary: rm path x)
  case 0
  show ?case by (rule flatten_node_total_step [OF _ "0.prems"]) simp
next
  case (Suc m)
  have node: "\<And>rm path x. card (unseen h rm) \<le> m \<Longrightarrow> \<exists>r. flatten_node m h rm path x = Inr r"
    using Suc.IH [OF Suc.prems(1)] by blast
  show ?case
  proof (rule flatten_node_total_step [OF _ Suc.prems])
    fix n rm0 path0 cs
    assume "Suc m = Suc n" and "card (unseen h rm0) \<le> n"
    then have u: "card (unseen h rm0) \<le> m" by simp
    have "\<exists>r. flatten_children m h rm0 path0 cs = Inr r"
      using node u by (rule flatten_children_total)
    with \<open>Suc m = Suc n\<close> show "\<exists>r. flatten_children n h rm0 path0 cs = Inr r" by simp
  qed
qed

lemma flatten_total: "snapshots h \<Longrightarrow> \<exists>g rm' es. flatten h rm root = Inr (g, rm', es)"
  unfolding flatten_def using flatten_node_total [OF _ card_unseen_le] by (metis prod_cases3)

subsection \<open>A missing State entry\<close>



lemma registered_upd: "registered ir n \<Longrightarrow> registered (ir(n \<mapsto> a)) (Suc n)"
  by (auto simp: registered_def)






subsection \<open>The State entries of flatten\<close>

lemma distinct_fieldsD:
  "distinct_fields h \<Longrightarrow> node_at h a = Some (t, cs) \<Longrightarrow> distinct (map fst cs)"
proof -
  assume s: "distinct_fields h" and n: "node_at h a = Some (t, cs)"
  from n have a: "a < length h" "h ! a = Node t cs" by (simp_all add: node_atD)
  from s a(1) have "case h ! a of Node t cs \<Rightarrow> distinct (map fst cs) | _ \<Rightarrow> True"
    by (simp add: distinct_fields_def list_all_length)
  with a(2) show ?thesis by simp
qed

lemma resolve_field:
  assumes "node_at h a = Some (t, cs)" and "distinct (map fst cs)" and "(k, y) \<in> set cs"
  shows "resolve h (Obj a) (k # q) = resolve h y q"
proof -
  from assms(2,3) have "map_of cs k = Some y" by simp
  with assms(1) show ?thesis by simp
qed

lemma entry_of_field:
  assumes "node_at h a = Some (t, cs)" and "distinct (map fst cs)" and "(k, y) \<in> set cs"
    and "entry_of h (path @ [k]) y e v"
  shows "entry_of h path (Obj a) e v"
proof -
  from assms(4) obtain q c d where q: "fst e = (path @ [k]) @ q" "resolve h y q = Some (Obj v)"
    "variable_at h v = Some (c, d)" "Variable_to_state_vars c d = Inr (snd e)"
    unfolding entry_of_def by blast
  from q(1) have "fst e = path @ (k # q)" by simp
  moreover from resolve_field [OF assms(1-3)] q(2) have "resolve h (Obj a) (k # q) = Some (Obj v)"
    by simp
  ultimately show ?thesis using q(3,4) unfolding entry_of_def by blast
qed

lemma extends_drop:
  assumes "extends h rm rm1" and "extends h rm1 rm2"
  shows "drop (length rm) rm2 = drop (length rm) rm1 @ drop (length rm1) rm2"
proof -
  from assms(1) obtain n1 where "rm1 = rm @ n1" by (auto simp: extends_def)
  moreover from assms(2) obtain n2 where "rm2 = rm1 @ n2" by (auto simp: extends_def)
  ultimately show ?thesis by simp
qed

lemma flatten_children_entries:
  assumes node: "\<And>rm path x g rm' es. flatten_node fuel h rm path x = Inr (g, rm', es) \<Longrightarrow>
              list_all2 (entry_of h path x) es (filter (is_variable h) (drop (length rm) rm'))"
    and n: "node_at h a = Some (t, cs0)" and d: "distinct (map fst cs0)"
    and "flatten_children fuel h rm path cs = Inr (gs, rm', es)"
    and "set cs \<subseteq> set cs0"
  shows "list_all2 (entry_of h path (Obj a)) es (filter (is_variable h) (drop (length rm) rm'))"
  using assms(4,5)
proof (induction cs arbitrary: rm gs rm' es)
  case Nil
  then show ?case by simp
next
  case (Cons kx rest)
  obtain k x where kx: "kx = (k, x)" by (cases kx)
  from Cons.prems(1) [unfolded kx] obtain g rm1 es1 gs' es2 where
    1: "flatten_node fuel h rm (path @ [k]) x = Inr (g, rm1, es1)"
    and 2: "flatten_children fuel h rm1 path rest = Inr (gs', rm', es2)"
    and gs: "gs = (k, g) # gs'" and es: "es = es1 @ es2"
    by (rule flatten_children_Cons_cases)
  from flatten_node_extends [OF 1] have e1: "extends h rm rm1" by simp
  from flatten_children_extends' [OF 2] have e2: "extends h rm1 rm'" by simp
  from Cons.prems(2) kx have mem: "(k, x) \<in> set cs0" and sub: "set rest \<subseteq> set cs0" by auto
  have "list_all2 (entry_of h (path @ [k]) x) es1 (filter (is_variable h) (drop (length rm) rm1))"
    by (rule node [OF 1])
  then have a1: "list_all2 (entry_of h path (Obj a)) es1 (filter (is_variable h) (drop (length rm) rm1))"
    by (rule list_all2_mono) (rule entry_of_field [OF n d mem])
  have a2: "list_all2 (entry_of h path (Obj a)) es2 (filter (is_variable h) (drop (length rm1) rm'))"
    by (rule Cons.IH [OF 2 sub])
  from a1 a2 show ?case
    unfolding es extends_drop [OF e1 e2] filter_append by (rule list_all2_appendI)
qed

lemma flatten_node_entries_step:
  assumes ch: "\<And>n a t cs0 rm path cs gs rm' es. fuel = Suc n \<Longrightarrow>
              node_at h a = Some (t, cs0) \<Longrightarrow> distinct (map fst cs0) \<Longrightarrow>
              flatten_children n h rm path cs = Inr (gs, rm', es) \<Longrightarrow> set cs \<subseteq> set cs0 \<Longrightarrow>
              list_all2 (entry_of h path (Obj a)) es (filter (is_variable h) (drop (length rm) rm'))"
    and df: "distinct_fields h"
    and f: "flatten_node fuel h rm path x = Inr (g, rm', es)"
  shows "list_all2 (entry_of h path x) es (filter (is_variable h) (drop (length rm) rm'))"
  using f
proof (cases rule: flatten_node_cases)
  case Leaf
  then show ?thesis by simp
next
  case (VarSeen a c d i)
  then show ?thesis by simp
next
  case (VarNew a c d sd)
  then show ?thesis by (simp add: is_variable_def entry_of_def)
next
  case (NodeSeen a t cs i)
  then show ?thesis by simp
next
  case (NodeNew a t cs n gs)
  from df NodeNew(2) have d: "distinct (map fst cs)" by (rule distinct_fieldsD)
  have l: "list_all2 (entry_of h path (Obj a)) es
             (filter (is_variable h) (drop (length (rm @ [a])) rm'))"
    by (rule ch [OF NodeNew(4) NodeNew(2) d NodeNew(5)]) simp
  from flatten_children_extends' [OF NodeNew(5)] obtain new where new: "rm' = (rm @ [a]) @ new"
    by (auto simp: extends_def)
  have nv: "\<not> is_variable h a"
    using NodeNew(2) by (auto simp: is_variable_def dest: variable_not_node)
  from l show ?thesis unfolding new NodeNew(1) using nv by simp
qed

lemma flatten_node_entries:
  assumes df: "distinct_fields h"
  shows "flatten_node fuel h rm path x = Inr (g, rm', es) \<Longrightarrow>
         list_all2 (entry_of h path x) es (filter (is_variable h) (drop (length rm) rm'))"
proof (induction fuel arbitrary: rm path x g rm' es)
  case 0
  show ?case by (rule flatten_node_entries_step [OF _ df "0.prems"]) simp
next
  case (Suc m)
  have node: "\<And>rm path x g rm' es. flatten_node m h rm path x = Inr (g, rm', es) \<Longrightarrow>
              list_all2 (entry_of h path x) es (filter (is_variable h) (drop (length rm) rm'))"
    by (rule Suc.IH)
  show ?case
  proof (rule flatten_node_entries_step [OF _ df Suc.prems])
    fix n a t cs0 rm0 path0 cs gs rm0' es0
    assume "Suc m = Suc n" and n: "node_at h a = Some (t, cs0)" and d: "distinct (map fst cs0)"
      and "flatten_children n h rm0 path0 cs = Inr (gs, rm0', es0)" and sub: "set cs \<subseteq> set cs0"
    then have fc: "flatten_children m h rm0 path0 cs = Inr (gs, rm0', es0)" by simp
    show "list_all2 (entry_of h path0 (Obj a)) es0 (filter (is_variable h) (drop (length rm0) rm0'))"
      using node n d fc sub by (rule flatten_children_entries)
  qed
qed

text \<open>Every path of the State is the path of a leaf-variable slot of the GraphDef.\<close>

lemma flatten_children_paths:
  assumes node: "\<And>rm path x g rm' es. flatten_node fuel h rm path x = Inr (g, rm', es) \<Longrightarrow>
              set (map fst es) \<subseteq> set (variable_paths path g)"
    and "flatten_children fuel h rm path cs = Inr (gs, rm', es)"
  shows "set (map fst es) \<subseteq> set (variable_paths_children path gs)"
  using assms(2)
proof (induction cs arbitrary: rm gs rm' es)
  case Nil
  then show ?case by simp
next
  case (Cons kx rest)
  obtain k x where kx: "kx = (k, x)" by (cases kx)
  from Cons.prems(1) [unfolded kx] obtain g rm1 es1 gs' es2 where
    1: "flatten_node fuel h rm (path @ [k]) x = Inr (g, rm1, es1)"
    and 2: "flatten_children fuel h rm1 path rest = Inr (gs', rm', es2)"
    and gs: "gs = (k, g) # gs'" and es: "es = es1 @ es2"
    by (rule flatten_children_Cons_cases)
  from node [OF 1] Cons.IH [OF 2] show ?case unfolding gs es by auto
qed

lemma flatten_node_paths:
  "flatten_node fuel h rm path x = Inr (g, rm', es) \<Longrightarrow>
   set (map fst es) \<subseteq> set (variable_paths path g)"
proof (induction fuel arbitrary: rm path x g rm' es)
  case 0
  from "0.prems" show ?case by (cases rule: flatten_node_cases) simp_all
next
  case (Suc m)
  have node: "\<And>rm path x g rm' es. flatten_node m h rm path x = Inr (g, rm', es) \<Longrightarrow>
              set (map fst es) \<subseteq> set (variable_paths path g)"
    by (rule Suc.IH)
  from Suc.prems show ?case
  proof (cases rule: flatten_node_cases)
    case (NodeNew a t cs n gs)
    then have "flatten_children m h (rm @ [a]) path cs = Inr (gs, rm', es)" by simp
    with node have "set (map fst es) \<subseteq> set (variable_paths_children path gs)"
      by (rule flatten_children_paths)
    with NodeNew(6) show ?thesis by simp
  qed simp_all
qed

subsection \<open>Unflatten with a cache\<close>










lemma extends_nth:
  assumes "extends h rm rm'" and "i < length rm"
  shows "rm' ! i = rm ! i"
  using assms by (auto simp: extends_def nth_append)


lemma extends_length: "extends h rm rm' \<Longrightarrow> length rm \<le> length rm'"
  by (auto simp: extends_def)





















lemma entry_of_root_path:
  "entry_of h [] root e a \<Longrightarrow> resolve h root (fst e) = Some (Obj a)"
  by (auto simp: entry_of_def)

lemma flatten_variables_distinct:
  assumes "flatten_node fuel h [] path x = Inr (g, rm', es)"
  shows "distinct (filter (is_variable h) rm')"
proof -
  from flatten_node_extends [OF assms] have "extends h [] rm'" by simp
  then have "distinct rm'" by (auto simp: extends_def)
  then show ?thesis by simp
qed

lemma flatten_paths_distinct:
  assumes f: "flatten_node fuel h [] [] root = Inr (g, rm', es)" and df: "distinct_fields h"
  shows "distinct (map fst es)"
proof -
  let ?vs = "filter (is_variable h) rm'"
  from flatten_node_entries [OF df f] have E: "list_all2 (entry_of h [] root) es ?vs" by simp
  have d: "distinct ?vs" by (rule flatten_variables_distinct [OF f])
  from E have len: "length es = length ?vs" by (rule list_all2_lengthD)
  show ?thesis
    unfolding distinct_conv_nth
  proof (intro allI impI)
    fix i j
    assume i: "i < length (map fst es)" and j: "j < length (map fst es)" and ne: "i \<noteq> j"
    from E i have "entry_of h [] root (es ! i) (?vs ! i)" by (simp add: list_all2_nthD)
    then have ri: "resolve h root (fst (es ! i)) = Some (Obj (?vs ! i))" by (rule entry_of_root_path)
    from E j have "entry_of h [] root (es ! j) (?vs ! j)" by (simp add: list_all2_nthD)
    then have rj: "resolve h root (fst (es ! j)) = Some (Obj (?vs ! j))" by (rule entry_of_root_path)
    from d i j ne len have "?vs ! i \<noteq> ?vs ! j" by (simp add: nth_eq_iff_index_eq)
    with ri rj have "fst (es ! i) \<noteq> fst (es ! j)" by auto
    with i j show "map fst es ! i \<noteq> map fst es ! j" by simp
  qed
qed



subsection \<open>Unflatten without a cache\<close>

lemma to_variable_of_to_state:
  assumes "Variable_to_state_vars c d = Inr sd"
  shows "VariableState_to_variable_obj cur sd =
           Inr (Variable c (d(''_trace_state'' \<mapsto> new_TraceState cur)))"
proof -
  let ?meta = "d(''raw_value'' := None, ''_trace_state'' := None)"
  from assms obtain raw where raw: "d ''raw_value'' = Some raw"
    and res: "d ''self'' = None" "d ''type'' = None" "d ''value'' = None"
    and gmn: "d ''get_metadata'' = None"
    and sd: "sd = [''type'' \<mapsto> Type (VariableT c), ''value'' \<mapsto> raw] ++ ?meta"
    by (auto simp: Variable_to_state_vars_def Variable_get_metadata_def VariableState_init_vars_def
        call_get_metadata_def split: if_splits option.splits)
  have ty: "sd ''type'' = Some (Type (VariableT c))" and va: "sd ''value'' = Some raw"
    using res by (simp_all add: sd map_add_def)
  have meta: "sd(''type'' := None, ''value'' := None) = ?meta"
    using res by (auto simp: sd map_add_def fun_eq_iff split: option.splits)
  have "sd ''get_metadata'' = None" using gmn by (simp add: sd map_add_def)
  then have gm: "call_get_metadata VariableState_get_metadata sd = Inr ?meta"
    unfolding call_get_metadata_def VariableState_get_metadata_def meta using ty va by simp
  have d': "?meta(''raw_value'' \<mapsto> raw, ''_trace_state'' \<mapsto> new_TraceState cur)
              = d(''_trace_state'' \<mapsto> new_TraceState cur)"
    using raw by (auto simp: fun_eq_iff)
  show ?thesis
    unfolding VariableState_to_variable_obj_def gm sum.case ty option.case pyval.case pytype.case va d'
    by simp
qed

lemma image_of_stable:
  assumes "rm2 = rm1 @ ext" and "\<forall>i < length rm1. ir2 i = ir1 i" and "refs_in h rm1 y"
  shows "image_of h rm2 ir2 y = image_of h rm1 ir1 y"
proof (cases y)
  case (Obj a)
  show ?thesis
  proof (cases "is_graph_object h a")
    case True
    with assms(3) Obj have mem: "a \<in> set rm1" by (simp add: refs_in_def)
    then obtain i where i: "index_of rm1 a = Some i"
      by (cases "index_of rm1 a") (auto simp: index_of_None_iff)
    from index_of_append [OF mem] i assms(1) have i2: "index_of rm2 a = Some i" by simp
    from index_of_SomeD [OF i] assms(2) have "ir2 i = ir1 i" by simp
    with Obj True i i2 show ?thesis by (simp add: image_of_def)
  next
    case False
    with Obj show ?thesis by (simp add: image_of_def)
  qed
qed (simp_all add: image_of_def)

lemma rebuilt_obj_stable:
  assumes "rebuilt_obj cur h rm1 ir1 ob ob'"
    and "rm2 = rm1 @ ext" and "\<forall>i < length rm1. ir2 i = ir1 i"
    and "\<forall>t cs. ob = Node t cs \<longrightarrow> (\<forall>(k, y) \<in> set cs. refs_in h rm1 y)"
  shows "rebuilt_obj cur h rm2 ir2 ob ob'"
proof (cases ob)
  case (Node t cs)
  with assms(4) have r: "\<forall>(k, y) \<in> set cs. refs_in h rm1 y" by simp
  have "map (\<lambda>(k, y). (k, image_of h rm2 ir2 y)) cs = map (\<lambda>(k, y). (k, image_of h rm1 ir1 y)) cs"
  proof (rule map_cong [OF refl])
    fix ky assume "ky \<in> set cs"
    with r have "refs_in h rm1 (snd ky)" by (cases ky) auto
    from image_of_stable [OF assms(2,3) this]
    show "(case ky of (k, y) \<Rightarrow> (k, image_of h rm2 ir2 y)) =
          (case ky of (k, y) \<Rightarrow> (k, image_of h rm1 ir1 y))"
      by (cases ky) simp
  qed
  with assms(1) Node show ?thesis by (simp add: rebuilt_obj_def)
qed (use assms(1) in \<open>simp_all add: rebuilt_obj_def\<close>)

lemma extends_new_closed:
  assumes "extends h rm rm'" and "length rm \<le> i" and "i < length rm'"
  shows "closed_node h rm' (rm' ! i)"
proof -
  from assms(1) obtain new where n: "rm' = rm @ new" "\<forall>a \<in> set new. closed_node h rm' a"
    by (auto simp: extends_def)
  from assms(2,3) n(1) have "rm' ! i = new ! (i - length rm)" "i - length rm < length new"
    by (simp_all add: nth_append)
  with n(2) show ?thesis by simp
qed

lemma closed_node_refs:
  assumes "closed_node h rm a" and "a < length h"
  shows "\<forall>t cs. h ! a = Node t cs \<longrightarrow> (\<forall>(k, y) \<in> set cs. refs_in h rm y)"
  using assms by (auto simp: closed_node_def node_at_def)

lemma extends_new_in_heap:
  assumes "extends h rm rm'" and "length rm \<le> i" and "i < length rm'"
  shows "rm' ! i < length h"
proof -
  from assms(1) obtain new where n: "rm' = rm @ new" "\<forall>a \<in> set new. is_graph_object h a"
    by (auto simp: extends_def)
  from assms(2,3) n(1) have "rm' ! i = new ! (i - length rm)" "i - length rm < length new"
    by (simp_all add: nth_append)
  with n(2) have "is_graph_object h (rm' ! i)" by simp
  then show ?thesis
    by (auto simp: is_graph_object_def variable_at_def node_at_def split: if_splits)
qed

lemma unflatten_children_fresh:
  assumes node: "\<And>rm path x g rm' es H ir. flatten_node fuel h rm path x = Inr (g, rm', es) \<Longrightarrow>
              registered ir (length rm) \<Longrightarrow>
              \<forall>e \<in> set es. map_of S (fst e) = Some (snd e) \<Longrightarrow>
              fresh_ok cur h H rm rm' ir (unflatten_node cur H ir Map.empty S path g)
                (\<lambda>ir'. image_of h rm' ir' x)"
    and "flatten_children fuel h rm path cs = Inr (gs, rm', es)"
    and "registered ir (length rm)"
    and "\<forall>e \<in> set es. map_of S (fst e) = Some (snd e)"
  shows "fresh_ok cur h H rm rm' ir (unflatten_children cur H ir Map.empty S path gs)
           (\<lambda>ir'. map (\<lambda>(k, y). (k, image_of h rm' ir' y)) cs)"
  using assms(2-4)
proof (induction cs arbitrary: rm gs rm' es H ir)
  case Nil
  then show ?case by (simp add: fresh_ok_def)
next
  case (Cons kx rest)
  obtain k x where kx: "kx = (k, x)" by (cases kx)
  from Cons.prems(1) [unfolded kx] obtain g rm1 es1 gs' es2 where
    1: "flatten_node fuel h rm (path @ [k]) x = Inr (g, rm1, es1)"
    and 2: "flatten_children fuel h rm1 path rest = Inr (gs', rm', es2)"
    and gs: "gs = (k, g) # gs'" and es: "es = es1 @ es2"
    by (rule flatten_children_Cons_cases)
  from flatten_node_extends [OF 1] have e1: "extends h rm rm1" and rx: "refs_in h rm1 x"
    by simp_all
  from flatten_children_extends' [OF 2] have e2: "extends h rm1 rm'" by simp
  from e2 obtain ext where ext: "rm' = rm1 @ ext" by (auto simp: extends_def)
  have S1: "\<forall>e \<in> set es1. map_of S (fst e) = Some (snd e)"
    and S2: "\<forall>e \<in> set es2. map_of S (fst e) = Some (snd e)"
    using Cons.prems(3) es by auto
  from node [OF 1 Cons.prems(2) S1, of H] obtain H1 ir1 where
    u1: "unflatten_node cur H ir Map.empty S (path @ [k]) g = Inr (image_of h rm1 ir1 x, H1, ir1)"
    and reg1: "registered ir1 (length rm1)"
    and ag1: "\<forall>i < length rm. ir1 i = ir i"
    and len1: "length H \<le> length H1"
    and fr1: "\<forall>b < length H. H1 ! b = H ! b"
    and new1: "\<forall>i. length rm \<le> i \<longrightarrow> i < length rm1 \<longrightarrow>
              (\<exists>b. ir1 i = Some b \<and> length H \<le> b \<and> b < length H1
                 \<and> rebuilt_obj cur h rm1 ir1 (h ! (rm1 ! i)) (H1 ! b))"
    unfolding fresh_ok_def by blast
  from Cons.IH [OF 2 reg1 S2, of H1] obtain H2 ir2 where
    u2: "unflatten_children cur H1 ir1 Map.empty S path gs' =
           Inr (map (\<lambda>(k, y). (k, image_of h rm' ir2 y)) rest, H2, ir2)"
    and reg2: "registered ir2 (length rm')"
    and ag2: "\<forall>i < length rm1. ir2 i = ir1 i"
    and len2: "length H1 \<le> length H2"
    and fr2: "\<forall>b < length H1. H2 ! b = H1 ! b"
    and new2: "\<forall>i. length rm1 \<le> i \<longrightarrow> i < length rm' \<longrightarrow>
              (\<exists>b. ir2 i = Some b \<and> length H1 \<le> b \<and> b < length H2
                 \<and> rebuilt_obj cur h rm' ir2 (h ! (rm' ! i)) (H2 ! b))"
    unfolding fresh_ok_def by blast
  have l1: "length rm \<le> length rm1" by (rule extends_length [OF e1])
  have ix: "image_of h rm' ir2 x = image_of h rm1 ir1 x"
    by (rule image_of_stable [OF ext ag2 rx])
  have r: "unflatten_children cur H ir Map.empty S path gs =
             Inr (map (\<lambda>(k, y). (k, image_of h rm' ir2 y)) (kx # rest), H2, ir2)"
    using u1 u2 ix by (simp add: gs kx)
  have ag: "\<forall>i < length rm. ir2 i = ir i" using ag1 ag2 l1 by auto
  have len: "length H \<le> length H2" using len1 len2 by simp
  have fr: "\<forall>b < length H. H2 ! b = H ! b" using fr1 fr2 len1 by auto
  have new: "\<forall>i. length rm \<le> i \<longrightarrow> i < length rm' \<longrightarrow>
              (\<exists>b. ir2 i = Some b \<and> length H \<le> b \<and> b < length H2
                 \<and> rebuilt_obj cur h rm' ir2 (h ! (rm' ! i)) (H2 ! b))"
  proof (intro allI impI)
    fix i assume i: "length rm \<le> i" "i < length rm'"
    show "\<exists>b. ir2 i = Some b \<and> length H \<le> b \<and> b < length H2
                 \<and> rebuilt_obj cur h rm' ir2 (h ! (rm' ! i)) (H2 ! b)"
    proof (cases "i < length rm1")
      case True
      with new1 i(1) obtain b where b: "ir1 i = Some b" "length H \<le> b" "b < length H1"
        "rebuilt_obj cur h rm1 ir1 (h ! (rm1 ! i)) (H1 ! b)" by blast
      have cl: "closed_node h rm1 (rm1 ! i)" by (rule extends_new_closed [OF e1 i(1) True])
      have inh: "rm1 ! i < length h" by (rule extends_new_in_heap [OF e1 i(1) True])
      have "rebuilt_obj cur h rm' ir2 (h ! (rm1 ! i)) (H1 ! b)"
        by (rule rebuilt_obj_stable [OF b(4) ext ag2 closed_node_refs [OF cl inh]])
      moreover have "rm' ! i = rm1 ! i" by (rule extends_nth [OF e2 True])
      moreover have "H2 ! b = H1 ! b" using fr2 b(3) by simp
      moreover have "ir2 i = Some b" using ag2 True b(1) by simp
      ultimately show ?thesis using b(2,3) len2 by auto
    next
      case False
      then have "length rm1 \<le> i" by simp
      with new2 i(2) obtain b where "ir2 i = Some b" "length H1 \<le> b" "b < length H2"
        "rebuilt_obj cur h rm' ir2 (h ! (rm' ! i)) (H2 ! b)" by blast
      with len1 show ?thesis by auto
    qed
  qed
  from r reg2 ag len fr new show ?case unfolding fresh_ok_def by blast
qed

lemma registered_lookup: "registered ir n \<Longrightarrow> i < n \<Longrightarrow> \<exists>b. ir i = Some b"
  by (auto simp: registered_def)

lemma registered_none: "registered ir n \<Longrightarrow> ir n = None"
  by (auto simp: registered_def)

lemma unflatten_node_fresh_step:
  assumes ch: "\<And>n rm path cs gs rm' es H ir. fuel = Suc n \<Longrightarrow>
              flatten_children n h rm path cs = Inr (gs, rm', es) \<Longrightarrow>
              registered ir (length rm) \<Longrightarrow>
              \<forall>e \<in> set es. map_of S (fst e) = Some (snd e) \<Longrightarrow>
              fresh_ok cur h H rm rm' ir (unflatten_children cur H ir Map.empty S path gs)
                (\<lambda>ir'. map (\<lambda>(k, y). (k, image_of h rm' ir' y)) cs)"
    and f: "flatten_node fuel h rm path x = Inr (g, rm', es)"
    and reg: "registered ir (length rm)"
    and S: "\<forall>e \<in> set es. map_of S (fst e) = Some (snd e)"
  shows "fresh_ok cur h H rm rm' ir (unflatten_node cur H ir Map.empty S path g)
           (\<lambda>ir'. image_of h rm' ir' x)"
  using f
proof (cases rule: flatten_node_cases)
  case Leaf
  have "image_of h rm ir x = x"
    using Leaf(4) by (cases x) (simp_all add: image_of_def)
  with Leaf reg show ?thesis by (simp add: fresh_ok_def)
next
  case (VarSeen a c d i)
  from index_of_SomeD [OF VarSeen(3)] have i: "i < length rm" by simp
  from registered_lookup [OF reg i] obtain b where b: "ir i = Some b" ..
  have "image_of h rm ir x = Obj b"
    using VarSeen(1,2,3) b by (simp add: image_of_def is_graph_object_def)
  with VarSeen b reg show ?thesis by (simp add: fresh_ok_def)
next
  case (NodeSeen a t cs i)
  from index_of_SomeD [OF NodeSeen(3)] have i: "i < length rm" by simp
  from registered_lookup [OF reg i] obtain b where b: "ir i = Some b" ..
  have "image_of h rm ir x = Obj b"
    using NodeSeen(1,2,3) b by (simp add: image_of_def is_graph_object_def)
  with NodeSeen b reg show ?thesis by (simp add: fresh_ok_def)
next
  case (VarNew a c d sd)
  let ?ob = "Variable c (d(''_trace_state'' \<mapsto> new_TraceState cur))"
  let ?H' = "H @ [?ob]"
  let ?ir' = "ir(length rm \<mapsto> length H)"
  have none: "ir (length rm) = None" by (rule registered_none [OF reg])
  from S VarNew(7) have sd: "map_of S path = Some sd" by simp
  have tv: "VariableState_to_variable_obj cur sd = Inr ?ob"
    by (rule to_variable_of_to_state [OF VarNew(4)])
  have na: "a \<notin> set rm" using VarNew(3) by (simp add: index_of_None_iff)
  have io: "index_of rm' a = Some (length rm)"
    using index_of_append_new [OF na, of "[]"] VarNew(6) by simp
  have img: "image_of h rm' ?ir' x = Obj (length H)"
    using VarNew(1,2) io by (simp add: image_of_def is_graph_object_def)
  have r: "unflatten_node cur H ir Map.empty S path g = Inr (image_of h rm' ?ir' x, ?H', ?ir')"
    using VarNew(5) none sd tv img by (simp add: alloc_def)
  have reg': "registered ?ir' (length rm')"
    using registered_upd [OF reg] VarNew(6) by simp
  have ag: "\<forall>i < length rm. ?ir' i = ir i" by simp
  have fr: "\<forall>b < length H. ?H' ! b = H ! b" by (simp add: nth_append)
  from VarNew(2) have hv: "h ! a = Variable c d" by (simp add: variable_atD)
  have new: "\<forall>i. length rm \<le> i \<longrightarrow> i < length rm' \<longrightarrow>
              (\<exists>b. ?ir' i = Some b \<and> length H \<le> b \<and> b < length ?H'
                 \<and> rebuilt_obj cur h rm' ?ir' (h ! (rm' ! i)) (?H' ! b))"
  proof (intro allI impI)
    fix i assume "length rm \<le> i" "i < length rm'"
    with VarNew(6) have i: "i = length rm" by simp
    have "rebuilt_obj cur h rm' ?ir' (h ! (rm' ! i)) (?H' ! length H)"
      using i VarNew(6) hv by (simp add: rebuilt_obj_def)
    with i show "\<exists>b. ?ir' i = Some b \<and> length H \<le> b \<and> b < length ?H'
                 \<and> rebuilt_obj cur h rm' ?ir' (h ! (rm' ! i)) (?H' ! b)"
      by simp
  qed
  have len: "length H \<le> length ?H'" by simp
  from r reg' ag len fr new show ?thesis unfolding fresh_ok_def by blast
next
  case (NodeNew a t cs n gs)
  let ?H1 = "H @ [Node t []]"
  let ?ir1 = "ir(length rm \<mapsto> length H)"
  have reg1: "registered ?ir1 (length (rm @ [a]))"
    using registered_upd [OF reg] by simp
  from ch [OF NodeNew(4,5) reg1 S, of ?H1] obtain H2 ir2 where
    u: "unflatten_children cur ?H1 ?ir1 Map.empty S path gs =
          Inr (map (\<lambda>(k, y). (k, image_of h rm' ir2 y)) cs, H2, ir2)"
    and reg2: "registered ir2 (length rm')"
    and ag2: "\<forall>i < length (rm @ [a]). ir2 i = ?ir1 i"
    and len2: "length ?H1 \<le> length H2"
    and fr2: "\<forall>b < length ?H1. H2 ! b = ?H1 ! b"
    and new2: "\<forall>i. length (rm @ [a]) \<le> i \<longrightarrow> i < length rm' \<longrightarrow>
              (\<exists>b. ir2 i = Some b \<and> length ?H1 \<le> b \<and> b < length H2
                 \<and> rebuilt_obj cur h rm' ir2 (h ! (rm' ! i)) (H2 ! b))"
    unfolding fresh_ok_def by blast
  let ?fields = "map (\<lambda>(k, y). (k, image_of h rm' ir2 y)) cs"
  let ?H' = "H2[length H := Node t ?fields]"
  from flatten_children_extends' [OF NodeNew(5)] have e: "extends h (rm @ [a]) rm'" by simp
  then obtain new where rm': "rm' = (rm @ [a]) @ new" by (auto simp: extends_def)
  have na: "a \<notin> set rm" using NodeNew(3) by (simp add: index_of_None_iff)
  have io: "index_of rm' a = Some (length rm)"
    using index_of_append_new [OF na, of new] rm' by simp
  have ir2a: "ir2 (length rm) = Some (length H)" using ag2 by simp
  have img: "image_of h rm' ir2 x = Obj (length H)"
    using NodeNew(1,2) io ir2a by (simp add: image_of_def is_graph_object_def)
  have "H2 ! length H = Node t []" using fr2 by (simp add: nth_append)
  then have sf: "set_fields H2 (length H) ?fields = ?H'" by (simp add: set_fields_def)
  have r: "unflatten_node cur H ir Map.empty S path g = Inr (image_of h rm' ir2 x, ?H', ir2)"
    using NodeNew(6) u sf img by (simp add: alloc_def)
  have ag: "\<forall>i < length rm. ir2 i = ir i" using ag2 by auto
  have len: "length H \<le> length ?H'" using len2 by simp
  have fr: "\<forall>b < length H. ?H' ! b = H ! b" using fr2 by (auto simp: nth_append)
  from NodeNew(2) have hn: "h ! a = Node t cs" by (simp add: node_atD)
  have new: "\<forall>i. length rm \<le> i \<longrightarrow> i < length rm' \<longrightarrow>
              (\<exists>b. ir2 i = Some b \<and> length H \<le> b \<and> b < length ?H'
                 \<and> rebuilt_obj cur h rm' ir2 (h ! (rm' ! i)) (?H' ! b))"
  proof (intro allI impI)
    fix i assume i: "length rm \<le> i" "i < length rm'"
    show "\<exists>b. ir2 i = Some b \<and> length H \<le> b \<and> b < length ?H'
                 \<and> rebuilt_obj cur h rm' ir2 (h ! (rm' ! i)) (?H' ! b)"
    proof (cases "i = length rm")
      case True
      have "rm' ! i = a" using True rm' by (simp add: nth_append)
      moreover have "?H' ! length H = Node t ?fields" using len2 by simp
      ultimately have "rebuilt_obj cur h rm' ir2 (h ! (rm' ! i)) (?H' ! length H)"
        using hn by (simp add: rebuilt_obj_def)
      with True ir2a len2 show ?thesis by auto
    next
      case False
      with i(1) have "length (rm @ [a]) \<le> i" by simp
      with new2 i(2) obtain b where b: "ir2 i = Some b" "length ?H1 \<le> b" "b < length H2"
        "rebuilt_obj cur h rm' ir2 (h ! (rm' ! i)) (H2 ! b)" by blast
      from b(2) have "b \<noteq> length H" by simp
      then have "?H' ! b = H2 ! b" by simp
      with b show ?thesis by auto
    qed
  qed
  from r reg2 ag len fr new show ?thesis unfolding fresh_ok_def by blast
qed

lemma unflatten_node_fresh:
  "flatten_node fuel h rm path x = Inr (g, rm', es) \<Longrightarrow> registered ir (length rm) \<Longrightarrow>
   \<forall>e \<in> set es. map_of S (fst e) = Some (snd e) \<Longrightarrow>
   fresh_ok cur h H rm rm' ir (unflatten_node cur H ir Map.empty S path g)
     (\<lambda>ir'. image_of h rm' ir' x)"
proof (induction fuel arbitrary: rm path x g rm' es H ir)
  case 0
  show ?case by (rule unflatten_node_fresh_step [OF _ "0.prems"]) simp
next
  case (Suc m)
  have node: "\<And>rm path x g rm' es H ir. flatten_node m h rm path x = Inr (g, rm', es) \<Longrightarrow>
              registered ir (length rm) \<Longrightarrow>
              \<forall>e \<in> set es. map_of S (fst e) = Some (snd e) \<Longrightarrow>
              fresh_ok cur h H rm rm' ir (unflatten_node cur H ir Map.empty S path g)
                (\<lambda>ir'. image_of h rm' ir' x)"
    by (rule Suc.IH)
  show ?case
  proof (rule unflatten_node_fresh_step [OF _ Suc.prems])
    fix n rm0 path0 cs gs rm0' es0 H0 ir0
    assume "Suc m = Suc n" and "flatten_children n h rm0 path0 cs = Inr (gs, rm0', es0)"
      and a: "registered ir0 (length rm0)" "\<forall>e \<in> set es0. map_of S (fst e) = Some (snd e)"
    then have fc: "flatten_children m h rm0 path0 cs = Inr (gs, rm0', es0)" by simp
    show "fresh_ok cur h H0 rm0 rm0' ir0 (unflatten_children cur H0 ir0 Map.empty S path0 gs)
            (\<lambda>ir'. map (\<lambda>(k, y). (k, image_of h rm0' ir' y)) cs)"
      using node fc a by (rule unflatten_children_fresh)
  qed
qed

lemma map_of_map_image:
  "map_of (map (\<lambda>(k, y). (k, f y)) cs) k = map_option f (map_of cs k)"
  by (induction cs) auto

lemma resolve_image:
  assumes all: "\<forall>a \<in> set rm. closed_node h rm a \<and>
             (\<exists>i b. index_of rm a = Some i \<and> ir i = Some b \<and> b < length H'
                \<and> rebuilt_obj cur h rm ir (h ! a) (H' ! b))"
  shows "resolve h x p = Some y \<Longrightarrow> refs_in h rm x \<Longrightarrow>
         resolve H' (image_of h rm ir x) p = Some (image_of h rm ir y) \<and> refs_in h rm y"
proof (induction p arbitrary: x)
  case Nil
  then show ?case by simp
next
  case (Cons k q)
  from Cons.prems(1) obtain a t cs z where x: "x = Obj a" and n: "node_at h a = Some (t, cs)"
    and z: "map_of cs k = Some z" and rz: "resolve h z q = Some y"
    by (auto split: pyval.splits option.splits)
  from n have g: "is_graph_object h a" by (simp add: is_graph_object_def)
  with Cons.prems(2) x have mem: "a \<in> set rm" by (simp add: refs_in_def)
  with all obtain i b where cl: "closed_node h rm a" and i: "index_of rm a = Some i"
    and b: "ir i = Some b" "b < length H'" and rb: "rebuilt_obj cur h rm ir (h ! a) (H' ! b)"
    by blast
  from n have hn: "h ! a = Node t cs" by (simp add: node_atD)
  with rb have "H' ! b = Node t (map (\<lambda>(k, y). (k, image_of h rm ir y)) cs)"
    by (simp add: rebuilt_obj_def)
  with b(2) have nb: "node_at H' b = Some (t, map (\<lambda>(k, y). (k, image_of h rm ir y)) cs)"
    by (simp add: node_at_def)
  have img: "image_of h rm ir x = Obj b" using x g i b(1) by (simp add: image_of_def)
  from z have "(k, z) \<in> set cs" by (rule map_of_SomeD)
  with cl n have refz: "refs_in h rm z" unfolding closed_node_def by blast
  from Cons.IH [OF rz refz] have
    "resolve H' (image_of h rm ir z) q = Some (image_of h rm ir y)" and ry: "refs_in h rm y"
    by simp_all
  then have "resolve H' (Obj b) (k # q) = Some (image_of h rm ir y)"
    using nb z by (simp add: map_of_map_image)
  with img ry show ?case by simp
qed

lemma filter_length_rel:
  assumes "list_all2 R xs ys" and "\<And>x y. R x y \<Longrightarrow> P x = Q y"
  shows "length (filter P xs) = length (filter Q ys)"
  using assms(1)
proof (induction rule: list_all2_induct)
  case Nil
  show ?case by simp
next
  case (Cons x xs y ys)
  with assms(2) [OF Cons(1)] show ?case by simp
qed

lemma distinct_filter_eq:
  "distinct xs \<Longrightarrow> x \<in> set xs \<Longrightarrow> length (filter (\<lambda>a. a = x) xs) = 1"
proof (induction xs)
  case Nil
  then show ?case by simp
next
  case (Cons a xs)
  show ?case
  proof (cases "a = x")
    case True
    with Cons.prems have "x \<notin> set xs" by simp
    then have "filter (\<lambda>a. a = x) xs = []" by (auto simp: filter_empty_conv)
    with True show ?thesis by simp
  next
    case False
    with Cons show ?thesis by simp
  qed
qed

text \<open>
  Claim C1 (sharing fidelity).  flatten returns on every heap whose Variables have
  snapshots.  If two paths \<open>p\<close> and \<open>q\<close> of a graph (nodes with distinct keys) lead to
  the same Variable \<open>v\<close>, then the State of flatten has exactly one entry whose path
  leads to \<open>v\<close>, and unflatten of the GraphDef and the State, in any heap \<open>h2\<close> and
  with no cache, returns a graph in which \<open>p\<close> and \<open>q\<close> lead to one and the same
  Variable \<open>v'\<close>: an object allocated by the call, of the class of \<open>v\<close>, with the
  attributes of \<open>v\<close> (its value among them) and a new trace state.
\<close>

theorem sharing_fidelity:
  "(snapshots h \<longrightarrow> (\<exists>r. flatten h [] root = Inr r))
   \<and> (flatten h [] root = Inr (graphdef, ref_index, st) \<longrightarrow> distinct_fields h \<longrightarrow>
      resolve h root p = Some (Obj v) \<longrightarrow> resolve h root q = Some (Obj v) \<longrightarrow>
      variable_at h v = Some (c, d) \<longrightarrow>
        length (filter (\<lambda>e. resolve h root (fst e) = Some (Obj v)) st) = 1
      \<and> (\<exists>root' h' index_ref v'.
            unflatten cur h2 graphdef st Map.empty Map.empty = Inr (root', h', index_ref)
          \<and> resolve h' root' p = Some (Obj v') \<and> resolve h' root' q = Some (Obj v')
          \<and> variable_at h' v' = Some (c, d(''_trace_state'' \<mapsto> new_TraceState cur))
          \<and> length h2 \<le> v'))"
proof (intro conjI impI)
  assume "snapshots h"
  from flatten_total [OF this, of "[]" root] show "\<exists>r. flatten h [] root = Inr r" by blast
next
  assume fl: "flatten h [] root = Inr (graphdef, ref_index, st)"
    and df: "distinct_fields h"
    and rp: "resolve h root p = Some (Obj v)"
    and var: "variable_at h v = Some (c, d)"
  let ?vs = "filter (is_variable h) ref_index"
  from fl have f: "flatten_node (length h) h [] [] root = Inr (graphdef, ref_index, st)"
    by (simp add: flatten_def)
  from flatten_node_extends [OF f] have ex: "extends h [] ref_index"
    and rr: "refs_in h ref_index root" by simp_all
  from ex have cl: "\<forall>a \<in> set ref_index. closed_node h ref_index a"
    and dist: "distinct ref_index" by (auto simp: extends_def)
  have refs_step: "\<And>x p y. resolve h x p = Some y \<Longrightarrow> refs_in h ref_index x \<Longrightarrow> refs_in h ref_index y"
  proof -
    fix x p y
    show "resolve h x p = Some y \<Longrightarrow> refs_in h ref_index x \<Longrightarrow> refs_in h ref_index y"
    proof (induction p arbitrary: x)
      case Nil
      then show ?case by simp
    next
      case (Cons k q)
      from Cons.prems(1) obtain a t cs z where x: "x = Obj a" and n: "node_at h a = Some (t, cs)"
        and z: "map_of cs k = Some z" and rz: "resolve h z q = Some y"
        by (auto split: pyval.splits option.splits)
      from n have "is_graph_object h a" by (simp add: is_graph_object_def)
      with Cons.prems(2) x have "a \<in> set ref_index" by (simp add: refs_in_def)
      with cl have c: "closed_node h ref_index a" by simp
      from z have "(k, z) \<in> set cs" by (rule map_of_SomeD)
      with c n have "refs_in h ref_index z" unfolding closed_node_def by blast
      with rz show ?case by (rule Cons.IH)
    qed
  qed
  from refs_step [OF rp rr] var have vm: "v \<in> set ref_index"
    by (simp add: refs_in_def is_graph_object_def)
  with var have vvs: "v \<in> set ?vs" by (simp add: is_variable_def)
  have E: "list_all2 (entry_of h [] root) st ?vs"
    using flatten_node_entries [OF df f] by simp
  have "length (filter (\<lambda>e. resolve h root (fst e) = Some (Obj v)) st)
          = length (filter (\<lambda>a. a = v) ?vs)"
    using E
  proof (rule filter_length_rel)
    fix e a assume "entry_of h [] root e a"
    then have "resolve h root (fst e) = Some (Obj a)" by (rule entry_of_root_path)
    then show "(resolve h root (fst e) = Some (Obj v)) = (a = v)" by auto
  qed
  also have "\<dots> = 1"
    using dist vvs by (intro distinct_filter_eq) simp_all
  finally show "length (filter (\<lambda>e. resolve h root (fst e) = Some (Obj v)) st) = 1" .
next
  assume fl: "flatten h [] root = Inr (graphdef, ref_index, st)"
    and df: "distinct_fields h"
    and rp: "resolve h root p = Some (Obj v)"
    and rq: "resolve h root q = Some (Obj v)"
    and var: "variable_at h v = Some (c, d)"
  from fl have f: "flatten_node (length h) h [] [] root = Inr (graphdef, ref_index, st)"
    by (simp add: flatten_def)
  from flatten_node_extends [OF f] have ex: "extends h [] ref_index"
    and rr: "refs_in h ref_index root" by simp_all
  from ex have cl: "\<forall>a \<in> set ref_index. closed_node h ref_index a"
    and dist: "distinct ref_index" by (auto simp: extends_def)
  have dp: "distinct (map fst st)" by (rule flatten_paths_distinct [OF f df])
  have S: "\<forall>e \<in> set st. map_of st (fst e) = Some (snd e)"
    using dp by (auto intro: map_of_is_SomeI)
  have reg0: "registered Map.empty (length ([] :: addr list))" by (simp add: registered_def)
  from unflatten_node_fresh [OF f reg0 S, of cur h2] obtain H' ir' where
    u: "unflatten_node cur h2 Map.empty Map.empty st [] graphdef =
          Inr (image_of h ref_index ir' root, H', ir')"
    and new: "\<forall>i. length ([] :: addr list) \<le> i \<longrightarrow> i < length ref_index \<longrightarrow>
              (\<exists>b. ir' i = Some b \<and> length h2 \<le> b \<and> b < length H'
                 \<and> rebuilt_obj cur h ref_index ir' (h ! (ref_index ! i)) (H' ! b))"
    unfolding fresh_ok_def by blast
  have chk: "list_all (\<lambda>p. p \<in> set (variable_paths [] graphdef)) (map fst st)"
    unfolding list_all_iff using flatten_node_paths [OF f] by blast
  have r: "unflatten cur h2 graphdef st Map.empty Map.empty =
             Inr (image_of h ref_index ir' root, H', ir')"
    using u chk by (simp add: unflatten_def)
  have all: "\<forall>a \<in> set ref_index. closed_node h ref_index a \<and>
             (\<exists>i b. index_of ref_index a = Some i \<and> ir' i = Some b \<and> b < length H'
                \<and> rebuilt_obj cur h ref_index ir' (h ! a) (H' ! b))"
  proof
    fix a assume a: "a \<in> set ref_index"
    then obtain i where i: "i < length ref_index" "ref_index ! i = a"
      by (auto simp: in_set_conv_nth)
    from index_of_nth [OF dist i(1)] i(2) have io: "index_of ref_index a = Some i" by simp
    from new i(1) obtain b where "ir' i = Some b" "b < length H'"
      "rebuilt_obj cur h ref_index ir' (h ! (ref_index ! i)) (H' ! b)" by auto
    with io i(2) cl a show "closed_node h ref_index a \<and>
             (\<exists>i b. index_of ref_index a = Some i \<and> ir' i = Some b \<and> b < length H'
                \<and> rebuilt_obj cur h ref_index ir' (h ! a) (H' ! b))"
      by auto
  qed
  from resolve_image [OF all rp rr] have
    ip: "resolve H' (image_of h ref_index ir' root) p = Some (image_of h ref_index ir' (Obj v))"
    and rv: "refs_in h ref_index (Obj v)" by simp_all
  from resolve_image [OF all rq rr] have
    iq: "resolve H' (image_of h ref_index ir' root) q = Some (image_of h ref_index ir' (Obj v))"
    by simp
  from var have gv: "is_graph_object h v" by (simp add: is_graph_object_def)
  with rv have "v \<in> set ref_index" by (simp add: refs_in_def)
  then obtain i where i: "i < length ref_index" "ref_index ! i = v"
    by (auto simp: in_set_conv_nth)
  from index_of_nth [OF dist i(1)] i(2) have io: "index_of ref_index v = Some i" by simp
  from new i(1) obtain b where b: "ir' i = Some b" "length h2 \<le> b" "b < length H'"
    "rebuilt_obj cur h ref_index ir' (h ! (ref_index ! i)) (H' ! b)" by auto
  have img: "image_of h ref_index ir' (Obj v) = Obj b"
    using gv io b(1) by (simp add: image_of_def)
  from var have "h ! v = Variable c d" by (simp add: variable_atD)
  with b(4) i(2) have "H' ! b = Variable c (d(''_trace_state'' \<mapsto> new_TraceState cur))"
    by (simp add: rebuilt_obj_def)
  with b(3) have vb: "variable_at H' b = Some (c, d(''_trace_state'' \<mapsto> new_TraceState cur))"
    by (simp add: variable_at_def)
  from r ip iq img vb b(2)
  show "\<exists>root' h' index_ref v'.
            unflatten cur h2 graphdef st Map.empty Map.empty = Inr (root', h', index_ref)
          \<and> resolve h' root' p = Some (Obj v') \<and> resolve h' root' q = Some (Obj v')
          \<and> variable_at h' v' = Some (c, d(''_trace_state'' \<mapsto> new_TraceState cur))
          \<and> length h2 \<le> v'"
    by auto
qed

theorem sharing_fidelity_witness:
  "snapshots shared_heap \<and> distinct_fields shared_heap
   \<and> resolve shared_heap (Obj 1) [''0''] = Some (Obj 0)
   \<and> resolve shared_heap (Obj 1) [''1''] = Some (Obj 0)
   \<and> (\<exists>graphdef ref_index st.
         flatten shared_heap [] (Obj 1) = Inr (graphdef, ref_index, st)
       \<and> map fst st = [[''0'']]
       \<and> length (filter (\<lambda>e. resolve shared_heap (Obj 1) (fst e) = Some (Obj 0)) st) = 1
       \<and> (\<exists>root' h' index_ref v'.
             unflatten 5 shared_heap graphdef st Map.empty Map.empty = Inr (root', h', index_ref)
           \<and> resolve h' root' [''0''] = Some (Obj v') \<and> resolve h' root' [''1''] = Some (Obj v')
           \<and> map_option (\<lambda>(c, d). (c, d ''raw_value'', d ''_trace_state'')) (variable_at h' v')
               = Some (''Param'', Some (Val 1), Some (TraceState 5))
           \<and> length shared_heap \<le> v'))"
proof -
  define d :: "(int, int) pydict" where
    "d = [''raw_value'' \<mapsto> Val 1, ''_trace_state'' \<mapsto> TraceState 0, ''get_value_hooks'' \<mapsto> Tuple []]"
  have s: "snapshots shared_heap"
    by (simp add: snapshots_def shared_heap_def Variable_to_state_vars_def
        Variable_get_metadata_def call_get_metadata_def VariableState_init_vars_def)
  have df: "distinct_fields shared_heap" by (simp add: distinct_fields_def shared_heap_def)
  have rp: "resolve shared_heap (Obj 1) [''0''] = Some (Obj 0)"
    by (simp add: shared_heap_def node_at_def)
  have rq: "resolve shared_heap (Obj 1) [''1''] = Some (Obj 0)"
    by (simp add: shared_heap_def node_at_def)
  have va: "variable_at shared_heap 0 = Some (''Param'', d)"
    by (simp add: variable_at_def shared_heap_def d_def)
  note t = sharing_fidelity [where h = shared_heap and root = "Obj 1" and p = "[''0'']"
      and q = "[''1'']" and v = 0 and c = "''Param''" and d = d and cur = 5 and ?h2.0 = shared_heap]
  from t s obtain r where "flatten shared_heap [] (Obj 1) = Inr r" by blast
  then obtain g rm st where f: "flatten shared_heap [] (Obj 1) = Inr (g, rm, st)" by (cases r) auto
  with shared_heap_flatten have p: "map fst st = [[''0'']]" by simp
  from t [of g rm st] f df rp rq va
  have 1: "length (filter (\<lambda>e. resolve shared_heap (Obj 1) (fst e) = Some (Obj 0)) st) = 1"
    and "\<exists>root' h' index_ref v'.
             unflatten 5 shared_heap g st Map.empty Map.empty = Inr (root', h', index_ref)
           \<and> resolve h' root' [''0''] = Some (Obj v') \<and> resolve h' root' [''1''] = Some (Obj v')
           \<and> variable_at h' v' = Some (''Param'', d(''_trace_state'' \<mapsto> new_TraceState 5))
           \<and> length shared_heap \<le> v'"
    by blast+
  then obtain root' h' index_ref v' where
    u: "unflatten 5 shared_heap g st Map.empty Map.empty = Inr (root', h', index_ref)"
    and r': "resolve h' root' [''0''] = Some (Obj v')" "resolve h' root' [''1''] = Some (Obj v')"
    and v': "variable_at h' v' = Some (''Param'', d(''_trace_state'' \<mapsto> new_TraceState 5))"
    and l: "length shared_heap \<le> v'"
    by blast
  from v' have "map_option (\<lambda>(c, d). (c, d ''raw_value'', d ''_trace_state'')) (variable_at h' v')
               = Some (''Param'', Some (Val 1), Some (TraceState 5))"
    by (simp add: d_def new_TraceState_def)
  with s df rp rq f p 1 u r' l show ?thesis by - (intro conjI exI, assumption+)
qed

end
